theory Spec2Isabelle
  imports Main "HOL-Library.Word" "HOL-Library.Sublist"
begin

section \<open>Data model of the WebRTC signaler (nojs.go)\<close>

text \<open>
  The Go package wires two peers' \<open>Signaler\<close> values together. The embedding keeps the
  source's names. What the code leaves to collaborators (the Pion peer connection and the
  remote peer reached through \<open>SignalerSet\<close>) appears as the record \<open>peer\<close> of result
  functions. Goroutines that block are modelled by result type \<open>option\<close>: \<open>None\<close> means
  that the call never returns.
\<close>

subsection \<open>Errors\<close>

text \<open>
  A Go \<open>error\<close> value. \<open>Simple m\<close> is \<open>errors.Simple(m)\<close>, an error whose \<open>Error()\<close> text is
  \<open>m\<close>; \<open>Message m e ls\<close> is \<open>errors.Message(m, e)\<close> with the errors \<open>ls\<close> attached by
  \<open>Link\<close>. The Go value \<open>nil\<close> is \<open>None :: error option\<close>.
\<close>

datatype error = Simple string | Message string error "error list"

text \<open>
  \<open>err.Error()\<close>. The text of a \<open>Message\<close> error is produced by the errors package,
  which is not part of this repository, so its rendering is a parameter.
\<close>

fun Error :: "(string \<Rightarrow> error \<Rightarrow> error list \<Rightarrow> string) \<Rightarrow> error \<Rightarrow> string" where
  "Error render (Simple m) = m"
| "Error render (Message m e ls) = render m e ls"

definition conflictMessage :: string where
  "conflictMessage = ''conflict''"

subsection \<open>Candidates and session descriptions\<close>

type_synonym Candidate = string

text \<open>Pion's \<open>webrtc.ICECandidateInit\<close>; a Go pointer field is an \<open>option\<close>.\<close>

record ICECandidateInit =
  Candidate :: string
  SDPMid :: "string option"
  SDPMLineIndex :: "16 word option"
  UsernameFragment :: "string option"

text \<open>
  Pion's \<open>webrtc.ICECandidate\<close>. The code reads it only through \<open>ToJSON()\<close>, so a
  candidate is represented by that image.
\<close>

datatype ICECandidate = ICECandidate (ToJSON: ICECandidateInit)

definition CandidateOf :: "ICECandidate \<Rightarrow> Candidate" where
  "CandidateOf candidate = Candidate (ToJSON candidate)"

definition Convert :: "Candidate \<Rightarrow> ICECandidateInit" where
  "Convert x = \<lparr>Candidate = x, SDPMid = Some [], SDPMLineIndex = Some 0,
     UsernameFragment = None\<rparr>"

type_synonym SDPType = int

text \<open>Pion's \<open>webrtc.SessionDescription\<close> (its exported fields).\<close>

record webrtc_SessionDescription =
  Type :: SDPType
  SDP :: string

record SessionDescription =
  sdType :: SDPType
  sdString :: string

definition SessionDescriptionOf :: "webrtc_SessionDescription \<Rightarrow> SessionDescription" where
  "SessionDescriptionOf sd = \<lparr>sdType = Type sd, sdString = SDP sd\<rparr>"

definition SessionDescription_Convert :: "SessionDescription \<Rightarrow> webrtc_SessionDescription" where
  "SessionDescription_Convert x = \<lparr>Type = sdType x, SDP = sdString x\<rparr>"

text \<open>The Go zero value \<open>SessionDescription{}\<close>.\<close>

definition SessionDescription_zero :: SessionDescription where
  "SessionDescription_zero = \<lparr>sdType = 0, sdString = []\<rparr>"

subsection \<open>The Signaler\<close>

datatype signalerState = signalerStateIdle | signalerStateOffering | signalerStateAnswering

text \<open>A channel made by \<open>make(chan error)\<close> is identified by a number.\<close>

type_synonym chan = nat

text \<open>
  The fields of \<open>Signaler\<close> that the code reads and writes. \<open>conn\<close>, \<open>set\<close> and \<open>sdpAlter\<close>
  are collaborators (see \<open>peer\<close>); the mutex and the two unbuffered hand-off channels
  \<open>priorityChan\<close> and \<open>candidateChan\<close> are part of the control flow of the model.
  \<open>candidateAnswer\<close> is \<open>None\<close> for the nil channel and otherwise holds the buffered values
  (capacity 1).
\<close>

record Signaler =
  priority :: bool
  candidates :: "Candidate list"
  candidateWant :: bool
  candidateAnswer :: "error option list option"
  state :: signalerState
  waitPending :: "chan list"
  waitSimple :: "chan list"

definition SignalerMake :: "bool \<Rightarrow> Signaler" where
  "SignalerMake p = \<lparr>priority = p, candidates = [], candidateWant = False,
     candidateAnswer = None, state = signalerStateIdle, waitPending = [], waitSimple = []\<rparr>"

section \<open>Candidate accumulator and candidate exchange\<close>

text \<open>
  \<open>candidateHandle\<close>, the ICE gathering callback, under the mutex. The argument is \<open>None\<close>
  for Go's nil candidate. The result carries the candidate that the callback wants to
  send over \<open>candidateChan\<close> (when \<open>candidateWant\<close> is set); the field \<open>candidateWant\<close> is
  cleared after that send.
\<close>

definition candidateHandle :: "ICECandidate option \<Rightarrow> Signaler \<Rightarrow> Signaler \<times> Candidate option" where
  "candidateHandle candidate x =
     (let c = (case candidate of None \<Rightarrow> [] | Some v \<Rightarrow> CandidateOf v)
      in if candidateWant x then (x\<lparr>candidateWant := False\<rparr>, Some c)
         else (x\<lparr>candidates := candidates x @ [c]\<rparr>, None))"

text \<open>
  The locked section at the top of the loop of \<open>candidateProcess\<close>: steal the buffer, or
  announce that the consumer waits.
\<close>

definition candidateProcess_lock :: "Signaler \<Rightarrow> Candidate list \<times> Signaler" where
  "candidateProcess_lock x =
     (if candidates x \<noteq> [] then (candidates x, x\<lparr>candidates := []\<rparr>)
      else ([], x\<lparr>candidateWant := True\<rparr>))"

text \<open>
  Where the goroutine running \<open>candidateProcess\<close> stands: before the locked section, in
  \<open>c = append(c, <-x.candidateChan)\<close>, or returned with \<open>(done, err)\<close>.
\<close>

datatype cpc = Top | Waiting | Returned bool "error option"

text \<open>
  One producer (the gathering callback) and one consumer. \<open>calls\<close> are the batches handed
  to \<open>fn\<close> so far. \<open>jammed\<close>: the callback sits in \<open>x.candidateChan <- c\<close> with the mutex
  held and nobody receives.
\<close>

record cconf =
  sig :: Signaler
  pc :: cpc
  calls :: "Candidate list list"
  jammed :: bool

text \<open>
  The callback \<open>fn\<close> may answer differently from call to call, so it also sees the batches
  it was given before.
\<close>

type_synonym candidate_fn = "Candidate list list \<Rightarrow> Candidate list \<Rightarrow> error option"

text \<open>The rest of a loop iteration, for the non-empty batch \<open>c\<close>.\<close>

definition consume :: "candidate_fn \<Rightarrow> Candidate list \<Rightarrow> cconf \<Rightarrow> cconf" where
  "consume fn c cf =
     (let done = (last c = []);
          r = fn (calls cf) c
      in cf\<lparr>calls := calls cf @ [c],
            pc := (case r of Some e \<Rightarrow> Returned done (Some e)
                   | None \<Rightarrow> if done then Returned True None else Top)\<rparr>)"

text \<open>
  A schedule is a sequence of events: the peer connection calls \<open>candidateHandle\<close>, or the
  consumer goroutine is given the processor for its next iteration.
\<close>

datatype cevent = Gather "ICECandidate option" | Iterate

definition cstep :: "candidate_fn \<Rightarrow> cevent \<Rightarrow> cconf \<Rightarrow> cconf" where
  "cstep fn ev cf =
     (if jammed cf then cf
      else case ev of
        Gather g \<Rightarrow>
          (case candidateHandle g (sig cf) of
             (x', None) \<Rightarrow> cf\<lparr>sig := x'\<rparr>
           | (x', Some c) \<Rightarrow>
               if pc cf = Waiting then consume fn [c] (cf\<lparr>sig := x'\<rparr>)
               else cf\<lparr>jammed := True\<rparr>)
      | Iterate \<Rightarrow>
          if pc cf = Top then
            (case candidateProcess_lock (sig cf) of
               (c, x') \<Rightarrow> if c = [] then cf\<lparr>sig := x', pc := Waiting\<rparr>
                          else consume fn c (cf\<lparr>sig := x'\<rparr>))
          else cf)"

definition crun :: "candidate_fn \<Rightarrow> cevent list \<Rightarrow> cconf \<Rightarrow> cconf" where
  "crun fn evs cf = foldl (\<lambda>cf ev. cstep fn ev cf) cf evs"

fun returned :: "cpc \<Rightarrow> bool" where
  "returned (Returned d e) = True"
| "returned _ = False"

text \<open>
  \<open>candidateProcess\<close>: run the loop along the schedule until it returns; the result is the
  final configuration and the rest of the schedule. \<open>None\<close>: the loop has not returned
  when the schedule ends.
\<close>

fun candidateProcess_loop :: "candidate_fn \<Rightarrow> cevent list \<Rightarrow> cconf \<Rightarrow> (cconf \<times> cevent list) option" where
  "candidateProcess_loop fn [] cf = (if returned (pc cf) then Some (cf, []) else None)"
| "candidateProcess_loop fn (ev # evs) cf =
     (if returned (pc cf) then Some (cf, ev # evs)
      else candidateProcess_loop fn evs (cstep fn ev cf))"

definition cconf_start :: "Signaler \<Rightarrow> cconf" where
  "cconf_start x = \<lparr>sig = x, pc = Top, calls = [], jammed = False\<rparr>"

record cresult =
  cdone :: bool
  cerr :: "error option"
  after :: Signaler
  batches :: "Candidate list list"
  rest :: "cevent list"

definition candidateProcess :: "candidate_fn \<Rightarrow> cevent list \<Rightarrow> Signaler \<Rightarrow> cresult option" where
  "candidateProcess fn evs x =
     (case candidateProcess_loop fn evs (cconf_start x) of
        None \<Rightarrow> None
      | Some (cf, evs') \<Rightarrow>
          (case pc cf of
             Returned d e \<Rightarrow> Some \<lparr>cdone = d, cerr = e, after = sig cf, batches = calls cf, rest = evs'\<rparr>
           | _ \<Rightarrow> None))"

text \<open>The candidates that the gathering callback was given, in order.\<close>

fun gathered :: "cevent list \<Rightarrow> Candidate list" where
  "gathered [] = []"
| "gathered (Gather None # evs) = [] # gathered evs"
| "gathered (Gather (Some v) # evs) = CandidateOf v # gathered evs"
| "gathered (Iterate # evs) = gathered evs"

definition candidateProcessSend :: "candidate_fn \<Rightarrow> cevent list \<Rightarrow> Signaler \<Rightarrow> cresult option" where
  "candidateProcessSend fn evs x = candidateProcess fn evs x"

definition candidateProcessDiscard :: "cevent list \<Rightarrow> Signaler \<Rightarrow> cresult option" where
  "candidateProcessDiscard evs x = candidateProcess (\<lambda>h c. None) evs x"

text \<open>
  The invariant of the accumulator: no consumer is announced as waiting while candidates
  are buffered.
\<close>

definition cand_inv :: "Signaler \<Rightarrow> bool" where
  "cand_inv x = (\<not> (candidateWant x \<and> candidates x \<noteq> []))"

text \<open>Everything the consumer took so far, followed by what is still buffered.\<close>

definition cacc :: "cconf \<Rightarrow> Candidate list" where
  "cacc cf = concat (calls cf) @ candidates (sig cf)"

text \<open>
  The form of the batches handed to \<open>fn\<close>: once the loop has returned with \<open>done\<close>, the
  last batch ends in the sentinel and no earlier batch does; before that no batch does.
\<close>

fun shape :: "cpc \<Rightarrow> Candidate list list \<Rightarrow> bool" where
  "shape (Returned True e) bs =
     (bs \<noteq> [] \<and> last (last bs) = [] \<and> (\<forall>b \<in> set (butlast bs). last b \<noteq> []))"
| "shape p bs = (\<forall>b \<in> set bs. last b \<noteq> [])"

definition batches_ok :: "cconf \<Rightarrow> bool" where
  "batches_ok cf = ((\<forall>b \<in> set (calls cf). b \<noteq> []) \<and> shape (pc cf) (calls cf))"

section \<open>Collaborators and the world around one Signaler\<close>

text \<open>
  The peer connection (\<open>x.conn\<close>), the hook \<open>x.sdpAlter\<close> and the remote peer (\<open>x.set\<close>),
  by what their calls return. \<open>AddICECandidate\<close> also sees the candidates added before it
  in the same call of \<open>CandidateAdd\<close>.
\<close>

record peer =
  CreateOffer :: "webrtc_SessionDescription \<times> error option"
  CreateAnswer :: "webrtc_SessionDescription \<times> error option"
  SetLocalDescription :: "webrtc_SessionDescription \<Rightarrow> error option"
  SetRemoteDescription :: "webrtc_SessionDescription \<Rightarrow> error option"
  AddICECandidate :: "ICECandidateInit list \<Rightarrow> ICECandidateInit \<Rightarrow> error option"
  sdpAlter :: "(webrtc_SessionDescription \<Rightarrow> webrtc_SessionDescription) option"
  set_Answer :: "SessionDescription \<Rightarrow> SessionDescription \<times> error option"
  set_CandidateAdd :: candidate_fn

text \<open>The two goroutines that \<open>CandidateAdd\<close> starts.\<close>

datatype task = RejectAnswer | SendCandidates

text \<open>
  The state in which the code of one goroutine runs:
  \<^item> \<open>sg\<close>: the Signaler;
  \<^item> \<open>ready c\<close>: a goroutine receives from channel \<open>c\<close> (it is, or will be, blocked in
    \<open><-c\<close>); a receiver takes one value;
  \<^item> \<open>sent\<close>: the values delivered over \<open>chan error\<close> channels, in order;
  \<^item> \<open>events\<close>: the coming schedule of the candidate accumulator;
  \<^item> \<open>forwarded\<close>: the argument lists of the calls to \<open>x.set.CandidateAdd\<close>;
  \<^item> \<open>priorityWait\<close>: a call of \<open>Answer\<close> is blocked in \<open><-x.priorityChan\<close>;
  \<^item> \<open>spawned\<close>: goroutines started and not yet run;
  \<^item> \<open>stuck\<close>: the goroutine whose code is being run is blocked for ever.
\<close>

record world =
  sg :: Signaler
  ready :: "chan \<Rightarrow> bool"
  sent :: "(chan \<times> error option) list"
  events :: "cevent list"
  forwarded :: "Candidate list list"
  priorityWait :: bool
  spawned :: "task list"
  stuck :: bool

definition world_of :: "Signaler \<Rightarrow> cevent list \<Rightarrow> world" where
  "world_of x evs = \<lparr>sg = x, ready = (\<lambda>c. False), sent = [], events = evs, forwarded = [],
     priorityWait = False, spawned = [], stuck = False\<rparr>"

text \<open>\<open>ch <- e\<close> on an unbuffered channel: it needs a receiver.\<close>

definition send :: "chan \<Rightarrow> error option \<Rightarrow> world \<Rightarrow> world" where
  "send c e w =
     (if stuck w then w
      else if ready w c then w\<lparr>ready := (ready w)(c := False), sent := sent w @ [(c, e)]\<rparr>
      else w\<lparr>stuck := True\<rparr>)"

text \<open>\<open>for _, ch := range chans { ch <- e }\<close>\<close>

fun send_all :: "chan list \<Rightarrow> error option \<Rightarrow> world \<Rightarrow> world" where
  "send_all [] e w = w"
| "send_all (c # cs) e w = send_all cs e (send c e w)"

text \<open>The values that channel \<open>c\<close> received.\<close>

definition received :: "(chan \<times> error option) list \<Rightarrow> chan \<Rightarrow> error option list" where
  "received s c = map snd (filter (\<lambda>m. fst m = c) s)"

text \<open>
  The locked section of \<open>finish\<close>: the new Signaler and the channel to which nil is
  sent, if there is a pending batch.
\<close>

definition finish_lock :: "Signaler \<Rightarrow> Signaler \<times> chan option" where
  "finish_lock x =
     (if waitPending x \<noteq> [] then (x, Some (hd (waitPending x)))
      else (x\<lparr>state := signalerStateIdle\<rparr>, None))"

definition finish :: "world \<Rightarrow> world" where
  "finish w =
     (if stuck w then w
      else case finish_lock (sg w) of
        (x', None) \<Rightarrow> w\<lparr>sg := x'\<rparr>
      | (x', Some c) \<Rightarrow> send c None (w\<lparr>sg := x'\<rparr>))"

definition finishAnswer :: "error option \<Rightarrow> world \<Rightarrow> world" where
  "finishAnswer e w = finish (send_all (waitSimple (sg w)) e w)"

text \<open>
  \<open>candidateProcess\<close> inside the world: it consumes the schedule. When the loop does not
  return, the goroutine stays blocked in it.
\<close>

definition candidates_run :: "candidate_fn \<Rightarrow> bool \<Rightarrow> world \<Rightarrow> world \<times> bool \<times> error option" where
  "candidates_run fn remote w =
     (if stuck w then (w, False, None)
      else case candidateProcess fn (events w) (sg w) of
        None \<Rightarrow>
          (let cf = crun fn (events w) (cconf_start (sg w))
           in (w\<lparr>sg := sig cf, events := [],
                 forwarded := forwarded w @ (if remote then calls cf else []),
                 stuck := True\<rparr>, False, None))
      | Some r \<Rightarrow>
          (w\<lparr>sg := after r, events := rest r,
             forwarded := forwarded w @ (if remote then batches r else [])\<rparr>,
           cdone r, cerr r))"

definition world_candidateProcessSend :: "peer \<Rightarrow> world \<Rightarrow> world \<times> bool \<times> error option" where
  "world_candidateProcessSend p w = candidates_run (set_CandidateAdd p) True w"

definition world_candidateProcessDiscard :: "world \<Rightarrow> world" where
  "world_candidateProcessDiscard w = fst (candidates_run (\<lambda>h c. None) False w)"

text \<open>\<open>if x.sdpAlter != nil { x.sdpAlter(&sd) }\<close>\<close>

definition alter :: "peer \<Rightarrow> webrtc_SessionDescription \<Rightarrow> webrtc_SessionDescription" where
  "alter p sd = (case sdpAlter p of None \<Rightarrow> sd | Some f \<Rightarrow> f sd)"

section \<open>Answer\<close>

text \<open>\<open>Answer\<close> from \<open>x.state = signalerStateAnswering\<close> on.\<close>

definition Answer_proceed :: "peer \<Rightarrow> SessionDescription \<Rightarrow> world \<Rightarrow> world \<times> SessionDescription \<times> error option" where
  "Answer_proceed p offer w =
     (let w1 = w\<lparr>sg := (sg w)\<lparr>state := signalerStateAnswering\<rparr>\<rparr>
      in case SetRemoteDescription p (SessionDescription_Convert offer) of
           Some e \<Rightarrow> (w1, SessionDescription_zero, Some e)
         | None \<Rightarrow>
             (case CreateAnswer p of
                (a, Some e) \<Rightarrow> (w1, SessionDescription_zero, Some e)
              | (a, None) \<Rightarrow>
                  (let answer = alter p a
                   in case SetLocalDescription p answer of
                        Some e \<Rightarrow> (w1, SessionDescription_zero, Some e)
                      | None \<Rightarrow> (w1, SessionDescriptionOf answer, None))))"

text \<open>
  \<open>Answer\<close>. The result \<open>None\<close>: the call is blocked in \<open><-x.priorityChan\<close>; it goes on
  with \<open>Answer_proceed\<close> when a conceding \<open>Negotiate\<close> signals it.
\<close>

definition Answer :: "peer \<Rightarrow> SessionDescription \<Rightarrow> world \<Rightarrow> world \<times> (SessionDescription \<times> error option) option" where
  "Answer p offer w =
     (if state (sg w) = signalerStateOffering then
        (if priority (sg w) then (w, Some (SessionDescription_zero, Some (Simple conflictMessage)))
         else (w\<lparr>priorityWait := True\<rparr>, None))
      else (case Answer_proceed p offer w of (w', r) \<Rightarrow> (w', Some r)))"

section \<open>Negotiate\<close>

text \<open>How a caller leaves a locked section at the start of \<open>Negotiate\<close>.\<close>

datatype entry = Queued | Leave "error option" | Lead "chan list"

text \<open>The first locked section; \<open>ch\<close> is the channel that the caller makes.\<close>

definition Negotiate_lock1 :: "chan \<Rightarrow> Signaler \<Rightarrow> Signaler \<times> entry" where
  "Negotiate_lock1 ch x =
     (if state x \<noteq> signalerStateIdle then (x\<lparr>waitPending := waitPending x @ [ch]\<rparr>, Queued)
      else (x\<lparr>state := signalerStateOffering\<rparr>, Lead []))"

text \<open>The second locked section, after \<open>err := <-ch\<close> gave \<open>e\<close>.\<close>

definition Negotiate_lock2 :: "chan \<Rightarrow> error option \<Rightarrow> Signaler \<Rightarrow> Signaler \<times> entry" where
  "Negotiate_lock2 ch e x =
     (if waitPending x = [] \<or> hd (waitPending x) \<noteq> ch then (x, Leave e)
      else (x\<lparr>waitPending := [], state := signalerStateOffering\<rparr>, Lead (tl (waitPending x))))"

text \<open>The first deferred function of the active negotiator.\<close>

definition Negotiate_deferred :: "bool \<Rightarrow> chan list \<Rightarrow> error option \<Rightarrow> world \<Rightarrow> world" where
  "Negotiate_deferred priorityConceded sameBatch e w =
     send_all sameBatch e (if priorityConceded then w else finish w)"

text \<open>
  How the active negotiator ends: it returns an error value, or it has conceded with
  this batch and waits on its \<open>waitSimple\<close> channel, or it never returns.
\<close>

datatype negotiation = Concluded "error option" | Conceded "chan list" | Hangs

definition conclude :: "error option \<Rightarrow> world \<Rightarrow> world \<times> negotiation" where
  "conclude e w = (w, if stuck w then Hangs else Concluded e)"

text \<open>
  The conceding branch up to \<open>err = <-ch\<close>. The send on \<open>priorityChan\<close> is made with the
  mutex held, so it succeeds only if a call of \<open>Answer\<close> is already waiting.
\<close>

definition Negotiate_concede :: "chan \<Rightarrow> world \<Rightarrow> world" where
  "Negotiate_concede ch w =
     (let w1 = w\<lparr>sg := (sg w)\<lparr>waitSimple := waitSimple (sg w) @ [ch], waitPending := []\<rparr>\<rparr>
      in if priorityWait w1 then w1\<lparr>priorityWait := False, ready := (ready w1)(ch := True)\<rparr>
         else w1\<lparr>stuck := True\<rparr>)"

text \<open>
  From \<open>SetRemoteDescription\<close> to the end of the body, with the second deferred function
  (the discard).
\<close>

definition Negotiate_candidates :: "peer \<Rightarrow> SessionDescription \<Rightarrow> world \<Rightarrow> world \<times> error option" where
  "Negotiate_candidates p answer w =
     (case SetRemoteDescription p (SessionDescription_Convert answer) of
        Some e \<Rightarrow>
          (let err2 = set_CandidateAdd p [] [];
               e' = (case err2 of None \<Rightarrow> e
                     | Some e2 \<Rightarrow> Message ''negotiation set remote answer'' e [e2])
           in (world_candidateProcessDiscard (w\<lparr>forwarded := forwarded w @ [[]]\<rparr>), Some e'))
      | None \<Rightarrow>
          (case world_candidateProcessSend p w of
             (w', candidatesDone, e) \<Rightarrow>
               (if \<not> candidatesDone then world_candidateProcessDiscard w' else w', e)))"

text \<open>
  The active negotiator, from \<open>CreateOffer\<close> on, with both deferred functions. \<open>ch\<close> is
  the channel made in the conceding branch.
\<close>

definition Negotiate_active ::
  "(string \<Rightarrow> error \<Rightarrow> error list \<Rightarrow> string) \<Rightarrow> peer \<Rightarrow> chan \<Rightarrow> chan list \<Rightarrow> world \<Rightarrow> world \<times> negotiation" where
  "Negotiate_active render p ch sameBatch w =
     (case CreateOffer p of
        (o1, Some e) \<Rightarrow> conclude (Some e) (Negotiate_deferred False sameBatch (Some e) w)
      | (o1, None) \<Rightarrow>
          (let offer = alter p o1
           in case set_Answer p (SessionDescriptionOf offer) of
                (answer, Some e) \<Rightarrow>
                  if Error render e \<noteq> conflictMessage
                  then conclude (Some e) (Negotiate_deferred False sameBatch (Some e) w)
                  else (let w1 = Negotiate_concede ch w
                        in (w1, if stuck w1 then Hangs
                                else Conceded (sameBatch @ waitPending (sg w))))
              | (answer, None) \<Rightarrow>
                  (case SetLocalDescription p offer of
                     Some e \<Rightarrow> conclude (Some e) (Negotiate_deferred False sameBatch (Some e) w)
                   | None \<Rightarrow>
                       (case Negotiate_candidates p answer w of
                          (w1, e) \<Rightarrow> conclude e (Negotiate_deferred False sameBatch e w1)))))"

text \<open>The conceded negotiator after \<open>err = <-ch\<close> gave \<open>e\<close>.\<close>

definition Negotiate_resume :: "chan list \<Rightarrow> error option \<Rightarrow> world \<Rightarrow> world \<times> negotiation" where
  "Negotiate_resume sameBatch e w = conclude e (Negotiate_deferred True sameBatch e w)"

section \<open>CandidateAdd\<close>

text \<open>
  The goroutines of \<open>CandidateAdd\<close>. The sender puts its result into the buffered channel
  \<open>candidateAnswer\<close>.
\<close>

definition run_task :: "peer \<Rightarrow> task \<Rightarrow> world \<Rightarrow> world" where
  "run_task p t w =
     (case t of
        RejectAnswer \<Rightarrow>
          finishAnswer (Some (Simple ''peer rejected answer'')) (world_candidateProcessDiscard w)
      | SendCandidates \<Rightarrow>
          (case world_candidateProcessSend p w of
             (w1, d, e) \<Rightarrow>
               (let w2 = (if \<not> d then world_candidateProcessDiscard w1 else w1)
                in if stuck w2 then w2
                   else (case candidateAnswer (sg w2) of
                           Some [] \<Rightarrow> w2\<lparr>sg := (sg w2)\<lparr>candidateAnswer := Some [e]\<rparr>\<rparr>
                         | _ \<Rightarrow> w2\<lparr>stuck := True\<rparr>))))"

text \<open>
  \<open>candidateAdd_finish\<close>. Receiving from \<open>candidateAnswer\<close> waits for the sending
  goroutine, so that goroutine is run first if it has not run yet. The result \<open>None\<close>:
  the call does not return.
\<close>

definition candidateAdd_finish :: "peer \<Rightarrow> world \<Rightarrow> world \<times> error option option" where
  "candidateAdd_finish p w =
     (let w1 = (if SendCandidates \<in> set (spawned w)
                then run_task p SendCandidates (w\<lparr>spawned := remove1 SendCandidates (spawned w)\<rparr>)
                else w)
      in if stuck w1 then (w1, None)
         else case candidateAnswer (sg w1) of
                Some (v # vs) \<Rightarrow>
                  (let w2 = finishAnswer v (w1\<lparr>sg := (sg w1)\<lparr>candidateAnswer := None\<rparr>\<rparr>)
                   in (w2, if stuck w2 then None else Some v))
              | _ \<Rightarrow> (w1\<lparr>stuck := True\<rparr>, None))"

text \<open>The loop over the candidates of a non-empty call.\<close>

fun CandidateAdd_loop :: "peer \<Rightarrow> ICECandidateInit list \<Rightarrow> Candidate list \<Rightarrow> world \<Rightarrow> world \<times> error option option" where
  "CandidateAdd_loop p added [] w = (w, Some None)"
| "CandidateAdd_loop p added (candidate # cs) w =
     (if candidate = [] then candidateAdd_finish p w
      else case AddICECandidate p added (Convert candidate) of
             Some e \<Rightarrow>
               (case candidateAdd_finish p w of
                  (w', None) \<Rightarrow> (w', None)
                | (w', Some None) \<Rightarrow> (w', Some (Some e))
                | (w', Some (Some e2)) \<Rightarrow> (w', Some (Some (Message ''add ice candidate'' e [e2]))))
           | None \<Rightarrow> CandidateAdd_loop p (added @ [Convert candidate]) cs w)"

text \<open>\<open>CandidateAdd\<close>. The result \<open>Some None\<close> is the return value nil.\<close>

definition CandidateAdd :: "peer \<Rightarrow> Candidate list \<Rightarrow> world \<Rightarrow> world \<times> error option option" where
  "CandidateAdd p c w =
     (if c = [] then (w\<lparr>spawned := spawned w @ [RejectAnswer]\<rparr>, Some None)
      else CandidateAdd_loop p [] c
             (if candidateAnswer (sg w) = None
              then w\<lparr>sg := (sg w)\<lparr>candidateAnswer := Some []\<rparr>,
                     spawned := spawned w @ [SendCandidates]\<rparr>
              else w))"

section \<open>Concurrent callers of Negotiate\<close>

text \<open>
  Local callers of \<open>Negotiate\<close> with no call from the remote peer, so that no exchange ends
  in the conceding branch. Caller \<open>t\<close> makes channel \<open>t\<close>. The control points of a caller:
  before the first locked section; blocked in \<open>err := <-ch\<close>; having received; running
  the exchange with its batch; in the loop of the deferred function; returned.
\<close>

datatype npc = NInit | NBlocked | NWoken "error option" | NActive "chan list"
  | NDeliver "chan list" "error option" | NReturned "error option"

text \<open>
  \<open>rounds\<close> lists the exchanges that were carried out: by whom, for which batch, and with
  which result.
\<close>

record nstate =
  nsig :: Signaler
  npc :: "chan \<Rightarrow> npc"
  rounds :: "(chan \<times> chan list \<times> error option) list"

text \<open>
  The steps of a schedule: caller \<open>t\<close> runs its first locked section; the exchange of the
  active caller \<open>t\<close> ends with result \<open>e\<close> and it runs \<open>finish\<close>; caller \<open>t\<close> makes the next
  send of its deferred loop (or returns when the loop is over); caller \<open>t\<close>, having
  received, runs its second locked section. A send needs the receiver to be blocked in
  its receive; a step that cannot be made leaves the state as it is.
\<close>

datatype nevent = Call chan | Complete chan "error option" | Pass chan | Resume chan

definition nstep :: "nevent \<Rightarrow> nstate \<Rightarrow> nstate" where
  "nstep ev s =
     (case ev of
        Call t \<Rightarrow>
          (case npc s t of
             NInit \<Rightarrow>
               (case Negotiate_lock1 t (nsig s) of
                  (x', Lead b) \<Rightarrow> s\<lparr>nsig := x', npc := (npc s)(t := NActive b)\<rparr>
                | (x', _) \<Rightarrow> s\<lparr>nsig := x', npc := (npc s)(t := NBlocked)\<rparr>)
           | _ \<Rightarrow> s)
      | Complete t e \<Rightarrow>
          (case npc s t of
             NActive b \<Rightarrow>
               (case finish_lock (nsig s) of
                  (x', None) \<Rightarrow>
                    s\<lparr>nsig := x', npc := (npc s)(t := NDeliver b e),
                      rounds := rounds s @ [(t, b, e)]\<rparr>
                | (x', Some c) \<Rightarrow>
                    if npc s c = NBlocked
                    then s\<lparr>nsig := x', npc := (npc s)(c := NWoken None, t := NDeliver b e),
                           rounds := rounds s @ [(t, b, e)]\<rparr>
                    else s)
           | _ \<Rightarrow> s)
      | Pass t \<Rightarrow>
          (case npc s t of
             NDeliver [] e \<Rightarrow> s\<lparr>npc := (npc s)(t := NReturned e)\<rparr>
           | NDeliver (c # cs) e \<Rightarrow>
               if npc s c = NBlocked
               then s\<lparr>npc := (npc s)(c := NWoken e, t := NDeliver cs e)\<rparr>
               else s
           | _ \<Rightarrow> s)
      | Resume t \<Rightarrow>
          (case npc s t of
             NWoken e \<Rightarrow>
               (case Negotiate_lock2 t e (nsig s) of
                  (x', Lead b) \<Rightarrow> s\<lparr>nsig := x', npc := (npc s)(t := NActive b)\<rparr>
                | (x', Leave e') \<Rightarrow> s\<lparr>nsig := x', npc := (npc s)(t := NReturned e')\<rparr>
                | (x', Queued) \<Rightarrow> s)
           | _ \<Rightarrow> s))"

definition nrun :: "nevent list \<Rightarrow> nstate \<Rightarrow> nstate" where
  "nrun evs s = foldl (\<lambda>s ev. nstep ev s) s evs"

text \<open>All callers are about to call \<open>Negotiate\<close> on the Signaler \<open>x\<close>.\<close>

definition nstate_start :: "Signaler \<Rightarrow> nstate" where
  "nstate_start x = \<lparr>nsig = x, npc = (\<lambda>t. NInit), rounds = []\<rparr>"

text \<open>The callers that a round serves: the one that ran the exchange, and its batch.\<close>

fun members :: "chan \<times> chan list \<times> error option \<Rightarrow> chan list" where
  "members (h, b, e) = h # b"

fun result_of :: "chan \<times> chan list \<times> error option \<Rightarrow> error option" where
  "result_of (h, b, e) = e"

text \<open>Caller \<open>t\<close> got the result of a round that served it.\<close>

definition served :: "nstate \<Rightarrow> chan \<Rightarrow> error option \<Rightarrow> bool" where
  "served s t e = (\<exists>r \<in> set (rounds s). result_of r = e \<and> t \<in> set (members r))"

section \<open>Notions used in the proofs\<close>

text \<open>Two Signalers that differ at most in the candidate accumulator.\<close>

definition same_queues :: "Signaler \<Rightarrow> Signaler \<Rightarrow> bool" where
  "same_queues x y =
     (priority x = priority y \<and> candidateAnswer x = candidateAnswer y \<and> state x = state y \<and>
      waitPending x = waitPending y \<and> waitSimple x = waitSimple y)"

text \<open>Two worlds that differ at most in the accumulator, its schedule and the forwarded
  batches, and in whether the running goroutine got stuck.\<close>

definition same_frame :: "world \<Rightarrow> world \<Rightarrow> bool" where
  "same_frame w1 w =
     (same_queues (sg w1) (sg w) \<and> ready w1 = ready w \<and> sent w1 = sent w \<and>
      priorityWait w1 = priorityWait w \<and> spawned w1 = spawned w)"

text \<open>
  The invariant of the callers of \<open>Negotiate\<close>. A leader is the active negotiator or the
  caller that \<open>finish\<close> has promoted and that has not yet taken the pending batch.
\<close>

definition leader :: "nstate \<Rightarrow> chan \<Rightarrow> bool" where
  "leader s t = ((\<exists>b. npc s t = NActive b) \<or>
     ((\<exists>e. npc s t = NWoken e) \<and> waitPending (nsig s) \<noteq> [] \<and> hd (waitPending (nsig s)) = t))"

definition in_round :: "nstate \<Rightarrow> chan \<Rightarrow> bool" where
  "in_round s t = (\<exists>r \<in> set (rounds s). t \<in> set (members r))"

definition inv_leader :: "nstate \<Rightarrow> bool" where
  "inv_leader s = ((\<forall>t t'. leader s t \<and> leader s t' \<longrightarrow> t = t') \<and>
     (state (nsig s) = signalerStateIdle \<longrightarrow> (\<forall>t. \<not> leader s t) \<and> waitPending (nsig s) = []))"

definition inv_pending :: "nstate \<Rightarrow> bool" where
  "inv_pending s = (distinct (waitPending (nsig s)) \<and>
     (\<forall>c \<in> set (waitPending (nsig s)).
        (npc s c = NBlocked \<or> ((\<exists>e. npc s c = NWoken e) \<and> c = hd (waitPending (nsig s)))) \<and>
        \<not> in_round s c))"

definition inv_active :: "nstate \<Rightarrow> bool" where
  "inv_active s = (\<forall>t b. npc s t = NActive b \<longrightarrow>
     distinct (t # b) \<and> \<not> in_round s t \<and>
     (\<forall>c \<in> set b. npc s c = NBlocked \<and> \<not> in_round s c \<and> c \<notin> set (waitPending (nsig s))))"

definition inv_deliver :: "nstate \<Rightarrow> bool" where
  "inv_deliver s = (\<forall>h cs e. npc s h = NDeliver cs e \<longrightarrow>
     (\<exists>pre. (h, pre @ cs, e) \<in> set (rounds s)) \<and>
     (\<forall>c \<in> set cs. npc s c = NBlocked \<and> c \<notin> set (waitPending (nsig s))))"

definition inv_result :: "nstate \<Rightarrow> bool" where
  "inv_result s = ((\<forall>t e. npc s t = NWoken e \<longrightarrow> leader s t \<or> served s t e) \<and>
     (\<forall>t e. npc s t = NReturned e \<longrightarrow> served s t e))"

definition inv_rounds :: "nstate \<Rightarrow> bool" where
  "inv_rounds s = (distinct (concat (map members (rounds s))) \<and>
     (\<forall>t. npc s t = NInit \<longrightarrow> t \<notin> set (waitPending (nsig s)) \<and> \<not> in_round s t))"

definition ninv :: "nstate \<Rightarrow> bool" where
  "ninv s = (inv_leader s \<and> inv_pending s \<and> inv_active s \<and> inv_deliver s \<and> inv_result s \<and>
     inv_rounds s)"

text \<open>
  The first exchange is run for the caller alone: as long as no round is complete, no
  caller has received anything and an active caller has an empty batch.
\<close>

definition first_alone :: "nstate \<Rightarrow> bool" where
  "first_alone s =
     (if rounds s = []
      then (\<forall>t. npc s t = NInit \<or> npc s t = NBlocked \<or> npc s t = NActive [])
      else fst (snd (hd (rounds s))) = [])"

section \<open>Example runs\<close>

text \<open>
  A schedule of the accumulator: one candidate is buffered and taken, the consumer then
  waits and is handed the second candidate directly, the sentinel is buffered and taken;
  a last callback comes after the loop has returned.
\<close>

definition ev_demo :: "cevent list" where
  "ev_demo = [Gather (Some (ICECandidate (Convert ''a''))), Iterate, Iterate,
     Gather (Some (ICECandidate (Convert ''b''))), Gather None, Iterate, Gather None]"

text \<open>A peer connection and a remote peer with which every call succeeds.\<close>

definition peer_ok :: peer where
  "peer_ok = \<lparr>CreateOffer = (\<lparr>Type = 1, SDP = ''offer''\<rparr>, None),
     CreateAnswer = (\<lparr>Type = 3, SDP = ''answer''\<rparr>, None),
     SetLocalDescription = (\<lambda>sd. None),
     SetRemoteDescription = (\<lambda>sd. None),
     AddICECandidate = (\<lambda>added c. None),
     sdpAlter = None,
     set_Answer = (\<lambda>offer. (\<lparr>sdType = 3, sdString = ''answer''\<rparr>, None)),
     set_CandidateAdd = (\<lambda>h c. None)\<rparr>"

text \<open>The remote peer holds priority and is offering itself.\<close>

definition peer_glare :: peer where
  "peer_glare = peer_ok\<lparr>set_Answer :=
     (\<lambda>offer. (SessionDescription_zero, Some (Simple conflictMessage)))\<rparr>"

text \<open>The remote peer fails with another error.\<close>

definition peer_down :: peer where
  "peer_down = peer_ok\<lparr>set_Answer :=
     (\<lambda>offer. (SessionDescription_zero, Some (Simple ''unreachable'')))\<rparr>"

text \<open>Sending the batch that ends in the sentinel fails.\<close>

definition peer_last_fails :: peer where
  "peer_last_fails = peer_ok\<lparr>set_CandidateAdd :=
     (\<lambda>h c. if last c = [] then Some (Simple ''broken pipe'') else None)\<rparr>"

definition render_demo :: "string \<Rightarrow> error \<Rightarrow> error list \<Rightarrow> string" where
  "render_demo m e ls = m"

definition offer_demo :: SessionDescription where
  "offer_demo = \<lparr>sdType = 1, sdString = ''remote offer''\<rparr>"

text \<open>One candidate and the sentinel are gathered, then the consumer runs.\<close>

definition gather_two :: "cevent list" where
  "gather_two = [Gather (Some (ICECandidate (Convert ''a''))), Gather None, Iterate]"

text \<open>An offering Signaler with a batch of two blocked callers and nobody pending.\<close>

definition world_batch :: world where
  "world_batch = (world_of ((SignalerMake False)\<lparr>state := signalerStateOffering\<rparr>) gather_two)
     \<lparr>ready := (\<lambda>c. c = 1 \<or> c = 2)\<rparr>"

text \<open>The same with two more callers pending, the first of them channel 3.\<close>

definition world_pending :: world where
  "world_pending = (world_of ((SignalerMake False)\<lparr>state := signalerStateOffering,
       waitPending := [3, 4]\<rparr>) gather_two)
     \<lparr>ready := (\<lambda>c. c = 1 \<or> c = 2 \<or> c = 3 \<or> c = 4)\<rparr>"

text \<open>An answering Signaler on whose result the conceded callers 7 and 9 wait.\<close>

definition world_simple :: world where
  "world_simple = (world_of ((SignalerMake False)\<lparr>state := signalerStateAnswering,
       waitSimple := [7, 9]\<rparr>) gather_two)
     \<lparr>ready := (\<lambda>c. c = 7 \<or> c = 9)\<rparr>"

text \<open>An offering Signaler that holds priority.\<close>

definition world_offering :: world where
  "world_offering = world_of ((SignalerMake True)\<lparr>state := signalerStateOffering\<rparr>) []"

text \<open>Every call of the remote \<open>CandidateAdd\<close> fails.\<close>

definition peer_send_fails :: peer where
  "peer_send_fails = peer_ok\<lparr>set_CandidateAdd := (\<lambda>h c. Some (Simple ''broken pipe''))\<rparr>"

text \<open>The peer connection does not accept the remote description.\<close>

definition peer_remote_rejected :: peer where
  "peer_remote_rejected = peer_ok\<lparr>SetRemoteDescription := (\<lambda>sd. Some (Simple ''bad description''))\<rparr>"

definition answer_demo :: SessionDescription where
  "answer_demo = \<lparr>sdType = 3, sdString = ''answer''\<rparr>"

text \<open>The consumer runs once between the candidate and the sentinel.\<close>

definition gather_split :: "cevent list" where
  "gather_split = [Gather (Some (ICECandidate (Convert ''a''))), Iterate, Gather None, Iterate]"

text \<open>An offering Signaler whose local description has just been set.\<close>

definition world_gathering :: "cevent list \<Rightarrow> world" where
  "world_gathering evs = world_of ((SignalerMake False)\<lparr>state := signalerStateOffering\<rparr>) evs"

text \<open>
  Two rounds of glare on the side without priority. In each round a local caller starts
  to offer, the offer of the remote peer arrives and waits in \<open>Answer\<close>, the remote peer
  answers the local offer with the conflict error, the local negotiator concedes (with
  channel 7 in the first round and channel 9 in the second) and \<open>Answer\<close> goes on. The
  first round ends well: the remote candidates and the sentinel arrive and the conceded
  caller gets nil. In the second round the remote peer cannot use the answer and calls
  \<open>CandidateAdd\<close> with no candidate.
\<close>

definition glare1_offering :: world where
  "glare1_offering = (world_of (SignalerMake False) (gather_two @ gather_two))
     \<lparr>sg := fst (Negotiate_lock1 1 (SignalerMake False))\<rparr>"

definition glare1_waiting :: world where
  "glare1_waiting = fst (Answer peer_ok offer_demo glare1_offering)"

definition glare1_conceded :: world where
  "glare1_conceded = fst (Negotiate_active render_demo peer_glare 7 [] glare1_waiting)"

definition glare1_answered :: world where
  "glare1_answered = fst (Answer_proceed peer_ok offer_demo glare1_conceded)"

definition glare1_finished :: world where
  "glare1_finished = fst (CandidateAdd peer_ok [''r'', []] glare1_answered)"

definition glare1_returned :: world where
  "glare1_returned = fst (Negotiate_resume [] None glare1_finished)"

definition glare2_offering :: world where
  "glare2_offering = glare1_returned\<lparr>sg := fst (Negotiate_lock1 2 (sg glare1_returned))\<rparr>"

definition glare2_waiting :: world where
  "glare2_waiting = fst (Answer peer_ok offer_demo glare2_offering)"

definition glare2_conceded :: world where
  "glare2_conceded = fst (Negotiate_active render_demo peer_glare 9 [] glare2_waiting)"

definition glare2_answered :: world where
  "glare2_answered = fst (Answer_proceed peer_ok offer_demo glare2_conceded)"

definition glare2_rejected :: world where
  "glare2_rejected = run_task peer_ok RejectAnswer
     ((fst (CandidateAdd peer_ok [] glare2_answered))\<lparr>spawned := []\<rparr>)"

text \<open>
  Two callers: caller 1 calls while the round of caller 0 is in flight and is promoted
  when that round ends well; its own round fails.
\<close>

definition callers_two :: "nevent list" where
  "callers_two = [Call 0, Call 1, Complete 0 None, Resume 1,
     Complete 1 (Some (Simple ''failed'')), Pass 0, Pass 1]"

text \<open>Three callers: callers 1 and 2 are queued during the round of caller 0; caller 1
  runs the next round for both.\<close>

definition callers_three :: "nevent list" where
  "callers_three = [Call 0, Call 1, Call 2, Complete 0 None, Resume 1,
     Complete 1 (Some (Simple ''failed'')), Pass 1, Pass 1, Resume 2, Pass 0]"

text \<open>Caller 1 is active for the batch of caller 2 while caller 3 is pending.\<close>

definition callers_mid :: "nevent list" where
  "callers_mid = [Call 0, Call 1, Call 2, Complete 0 None, Resume 1, Call 3]"

text \<open>
  The sentinel and a further candidate are both gathered before the consumer takes the
  buffer, so the sentinel stands in the middle of the first batch.
\<close>

definition ev_after_sentinel :: "cevent list" where
  "ev_after_sentinel = [Gather (Some (ICECandidate (Convert ''a''))), Gather None,
     Gather (Some (ICECandidate (Convert ''b''))), Iterate, Gather None, Iterate]"

section \<open>Properties of the candidate exchange\<close>

lemma gathered_append: "gathered (xs @ ys) = gathered xs @ gathered ys"
  by (induction xs rule: gathered.induct) auto

lemma crun_Nil: "crun fn [] cf = cf"
  by (simp add: crun_def)

lemma crun_Cons: "crun fn (ev # evs) cf = crun fn evs (cstep fn ev cf)"
  by (simp add: crun_def)

lemma cstep_jammed: "jammed cf \<Longrightarrow> cstep fn ev cf = cf"
  by (simp add: cstep_def)

lemma consume_sig: "sig (consume fn c cf) = sig cf"
  by (simp add: consume_def Let_def)

lemma consume_jammed: "jammed (consume fn c cf) = jammed cf"
  by (simp add: consume_def Let_def)

lemma consume_calls: "calls (consume fn c cf) = calls cf @ [c]"
  by (simp add: consume_def Let_def)

lemma cstep_cand_inv: "cand_inv (sig cf) \<Longrightarrow> cand_inv (sig (cstep fn ev cf))"
  by (cases ev)
     (auto simp: cstep_def cand_inv_def candidateHandle_def candidateProcess_lock_def
        consume_sig Let_def split: option.splits if_splits)

lemma crun_cand_inv: "cand_inv (sig cf) \<Longrightarrow> cand_inv (sig (crun fn evs cf))"
  by (induction evs arbitrary: cf) (auto simp: crun_Nil crun_Cons cstep_cand_inv)

lemma cstep_jam_pc: "jammed (cstep fn ev cf) \<Longrightarrow> \<not> jammed cf \<Longrightarrow> pc (cstep fn ev cf) = pc cf"
  by (cases ev)
     (auto simp: cstep_def candidateHandle_def candidateProcess_lock_def
        consume_jammed Let_def split: option.splits if_splits)

text \<open>
  A step that does not jam adds the gathered candidate to the account. The order is kept
  because a candidate is handed over directly only when nothing is buffered.
\<close>

lemma cstep_cacc:
  "cand_inv (sig cf) \<Longrightarrow> \<not> jammed (cstep fn ev cf) \<Longrightarrow> cacc (cstep fn ev cf) = cacc cf @ gathered [ev]"
  by (cases ev)
     (auto simp: cstep_def cacc_def candidateHandle_def candidateProcess_lock_def
        consume_jammed consume_sig consume_calls cand_inv_def Let_def
        split: option.splits if_splits)

lemma consume_batches_ok:
  "batches_ok cf \<Longrightarrow> \<not> returned (pc cf) \<Longrightarrow> c \<noteq> [] \<Longrightarrow> batches_ok (consume fn c cf)"
  by (cases "pc cf")
     (auto simp: batches_ok_def consume_def Let_def split: option.splits)

lemma batches_ok_sig: "batches_ok (cf\<lparr>sig := x\<rparr>) = batches_ok cf"
  by (simp add: batches_ok_def)

lemma batches_ok_jammed: "batches_ok (cf\<lparr>jammed := b\<rparr>) = batches_ok cf"
  by (simp add: batches_ok_def)

lemma batches_ok_waiting: "batches_ok cf \<Longrightarrow> \<not> returned (pc cf) \<Longrightarrow> batches_ok (cf\<lparr>pc := Waiting\<rparr>)"
  by (cases "pc cf") (auto simp: batches_ok_def)

lemma cstep_batches_ok: "batches_ok cf \<Longrightarrow> \<not> returned (pc cf) \<Longrightarrow> batches_ok (cstep fn ev cf)"
  by (cases ev)
     (auto simp: cstep_def candidateHandle_def candidateProcess_lock_def consume_batches_ok
        batches_ok_sig batches_ok_jammed batches_ok_waiting Let_def
        split: option.splits if_splits)

lemma loop_jammed: "jammed cf \<Longrightarrow> \<not> returned (pc cf) \<Longrightarrow> candidateProcess_loop fn evs cf = None"
  by (induction evs) (auto simp: cstep_jammed)

lemma loop_crun:
  "candidateProcess_loop fn evs cf = Some (cf', evs') \<Longrightarrow>
     \<exists>pre. evs = pre @ evs' \<and> cf' = crun fn pre cf \<and> returned (pc cf')"
proof (induction fn evs cf rule: candidateProcess_loop.induct)
  case (1 fn cf)
  then show ?case by (auto simp: crun_Nil split: if_splits)
next
  case (2 fn ev evs cf)
  show ?case
  proof (cases "returned (pc cf)")
    case True
    with 2 show ?thesis by (auto simp: crun_Nil)
  next
    case False
    with 2 obtain pre where "evs = pre @ evs'" "cf' = crun fn pre (cstep fn ev cf)" "returned (pc cf')"
      by auto
    then show ?thesis
      by (intro exI[of _ "ev # pre"]) (simp add: crun_Cons)
  qed
qed

lemma loop_inv:
  "candidateProcess_loop fn evs cf = Some (cf', evs') \<Longrightarrow> \<not> jammed cf \<Longrightarrow>
   cand_inv (sig cf) \<Longrightarrow> batches_ok cf \<Longrightarrow>
     \<not> jammed cf' \<and> batches_ok cf' \<and> cand_inv (sig cf') \<and>
     (\<exists>pre. evs = pre @ evs' \<and> cacc cf' = cacc cf @ gathered pre)"
proof (induction fn evs cf rule: candidateProcess_loop.induct)
  case (1 fn cf)
  then show ?case by (auto split: if_splits)
next
  case (2 fn ev evs cf)
  show ?case
  proof (cases "returned (pc cf)")
    case True
    with 2 show ?thesis by auto
  next
    case False
    let ?cf = "cstep fn ev cf"
    from 2 False have run: "candidateProcess_loop fn evs ?cf = Some (cf', evs')" by simp
    show ?thesis
    proof (cases "jammed ?cf")
      case True
      then have "pc ?cf = pc cf" using 2(3) by (simp add: cstep_jam_pc)
      with True False have "candidateProcess_loop fn evs ?cf = None"
        by (simp add: loop_jammed)
      with run show ?thesis by simp
    next
      case nj: False
      have a: "cacc ?cf = cacc cf @ gathered [ev]" using 2(4) nj by (rule cstep_cacc)
      have b: "batches_ok ?cf" using 2(5) False by (rule cstep_batches_ok)
      have c: "cand_inv (sig ?cf)" using 2(4) by (rule cstep_cand_inv)
      from "2.IH"[OF False run nj c b] obtain pre where
        r: "\<not> jammed cf'" "batches_ok cf'" "cand_inv (sig cf')" "evs = pre @ evs'"
           "cacc cf' = cacc ?cf @ gathered pre" by auto
      have "ev # evs = (ev # pre) @ evs'" using r by simp
      moreover have "cacc cf' = cacc cf @ gathered (ev # pre)"
        using r a gathered_append[of "[ev]" pre] by simp
      ultimately show ?thesis using r by blast
    qed
  qed
qed

lemma candidateProcess_Some:
  "candidateProcess fn evs x = Some r \<Longrightarrow>
     \<exists>cf. candidateProcess_loop fn evs (cconf_start x) = Some (cf, rest r) \<and>
       pc cf = Returned (cdone r) (cerr r) \<and> after r = sig cf \<and> batches r = calls cf"
  by (auto simp: candidateProcess_def split: option.splits cpc.splits)

lemma shape_True_last:
  "shape (Returned True e) bs \<Longrightarrow> \<forall>b \<in> set bs. b \<noteq> [] \<Longrightarrow> last (concat bs) = []"
  by (cases bs rule: rev_cases) auto

text \<open>What a returned run of \<open>candidateProcess\<close> has done.\<close>

lemma candidateProcess_account:
  assumes run: "candidateProcess fn evs x = Some r" and inv: "cand_inv x"
  shows "\<exists>pre. evs = pre @ rest r \<and>
           concat (batches r) @ candidates (after r) = candidates x @ gathered pre"
    and "\<forall>b \<in> set (batches r). b \<noteq> []"
    and "shape (Returned (cdone r) (cerr r)) (batches r)"
    and "cand_inv (after r)"
proof -
  from candidateProcess_Some[OF run] obtain cf where
    loop: "candidateProcess_loop fn evs (cconf_start x) = Some (cf, rest r)"
    and cf: "pc cf = Returned (cdone r) (cerr r)" "after r = sig cf" "batches r = calls cf"
    by blast
  have start: "\<not> jammed (cconf_start x)" "cand_inv (sig (cconf_start x))"
    "batches_ok (cconf_start x)" "cacc (cconf_start x) = candidates x"
    using inv by (simp_all add: cconf_start_def batches_ok_def cacc_def)
  from loop_inv[OF loop start(1-3)] obtain pre where
    ok: "batches_ok cf" "cand_inv (sig cf)"
    and pre: "evs = pre @ rest r" "cacc cf = cacc (cconf_start x) @ gathered pre"
    by auto
  have "concat (batches r) @ candidates (after r) = candidates x @ gathered pre"
    using pre(2) cf start(4) by (simp add: cacc_def)
  with pre(1) show "\<exists>pre. evs = pre @ rest r \<and>
           concat (batches r) @ candidates (after r) = candidates x @ gathered pre" by blast
  show "\<forall>b \<in> set (batches r). b \<noteq> []" using ok cf by (simp add: batches_ok_def)
  show "shape (Returned (cdone r) (cerr r)) (batches r)" using ok cf by (simp add: batches_ok_def)
  show "cand_inv (after r)" using ok cf by simp
qed

lemma demo_run: "candidateProcessSend (\<lambda>h c. None) ev_demo (SignalerMake False) =
   Some \<lparr>cdone = True, cerr = None, after = SignalerMake False,
     batches = [[''a''], [''b''], [[]]], rest = [Gather None]\<rparr>"
  by (simp add: candidateProcessSend_def candidateProcess_def ev_demo_def cconf_start_def
      cstep_def candidateHandle_def candidateProcess_lock_def consume_def CandidateOf_def
      Convert_def SignalerMake_def Let_def)

section \<open>Channels, finish and the deferred function\<close>

lemma send_stuck: "stuck w \<Longrightarrow> send c e w = w"
  by (simp add: send_def)

lemma send_all_stuck: "stuck w \<Longrightarrow> send_all cs e w = w"
  by (induction cs) (auto simp: send_stuck)

lemma send_sg: "sg (send c e w) = sg w"
  by (simp add: send_def)

lemma send_all_sg: "sg (send_all cs e w) = sg w"
  by (induction cs arbitrary: w) (auto simp: send_sg)

lemma send_all_returns:
  "\<not> stuck w \<Longrightarrow> (\<not> stuck (send_all cs e w)) = (distinct cs \<and> (\<forall>c \<in> set cs. ready w c))"
proof (induction cs arbitrary: w)
  case Nil
  then show ?case by simp
next
  case (Cons c cs)
  show ?case
  proof (cases "ready w c")
    case True
    then have s: "send c e w = w\<lparr>ready := (ready w)(c := False), sent := sent w @ [(c, e)]\<rparr>"
      using Cons.prems by (simp add: send_def)
    have "\<not> stuck (send c e w)" using Cons.prems s by simp
    from Cons.IH[OF this] show ?thesis using True s by auto
  next
    case False
    then have "stuck (send c e w)" using Cons.prems by (simp add: send_def)
    then show ?thesis using False by (simp add: send_all_stuck)
  qed
qed

lemma send_all_sent:
  "\<not> stuck (send_all cs e w) \<Longrightarrow> sent (send_all cs e w) = sent w @ map (\<lambda>c. (c, e)) cs"
proof (induction cs arbitrary: w)
  case Nil
  then show ?case by simp
next
  case (Cons c cs)
  have ns: "\<not> stuck (send c e w)" using Cons.prems by (auto simp: send_all_stuck)
  then have "\<not> stuck w" "ready w c" by (auto simp: send_def split: if_splits)
  then have "sent (send c e w) = sent w @ [(c, e)]" by (simp add: send_def)
  with Cons.IH[of "send c e w"] Cons.prems show ?case by simp
qed

lemma send_all_ready:
  "\<not> stuck (send_all cs e w) \<Longrightarrow> ready (send_all cs e w) = (\<lambda>c. ready w c \<and> c \<notin> set cs)"
proof (induction cs arbitrary: w)
  case Nil
  then show ?case by simp
next
  case (Cons c cs)
  have ns: "\<not> stuck (send c e w)" using Cons.prems by (auto simp: send_all_stuck)
  then have "\<not> stuck w" "ready w c" by (auto simp: send_def split: if_splits)
  then have "ready (send c e w) = (ready w)(c := False)" by (simp add: send_def)
  with Cons.IH[of "send c e w"] Cons.prems show ?case by auto
qed

lemma received_append: "received (xs @ ys) c = received xs c @ received ys c"
  by (simp add: received_def)

lemma received_map:
  "distinct cs \<Longrightarrow> received (map (\<lambda>c. (c, e)) cs) c = (if c \<in> set cs then [e] else [])"
  by (induction cs) (auto simp: received_def)

text \<open>The deferred function of a negotiator that did not concede.\<close>

lemma Negotiate_deferred_returns:
  assumes "\<not> stuck w"
  shows "(\<not> stuck (Negotiate_deferred False sb e w)) =
     (distinct sb \<and> (\<forall>c \<in> set sb. ready w c) \<and>
      (waitPending (sg w) \<noteq> [] \<longrightarrow>
         ready w (hd (waitPending (sg w))) \<and> hd (waitPending (sg w)) \<notin> set sb))"
proof (cases "waitPending (sg w) = []")
  case True
  then have f: "finish w = w\<lparr>sg := (sg w)\<lparr>state := signalerStateIdle\<rparr>\<rparr>"
    using assms by (simp add: finish_def finish_lock_def)
  show ?thesis using True assms send_all_returns[of "finish w" sb e]
    by (simp add: Negotiate_deferred_def f)
next
  case False
  let ?h = "hd (waitPending (sg w))"
  have f: "finish w = send ?h None w" using False assms
    by (simp add: finish_def finish_lock_def)
  show ?thesis
  proof (cases "ready w ?h")
    case True
    then have s: "finish w = w\<lparr>ready := (ready w)(?h := False), sent := sent w @ [(?h, None)]\<rparr>"
      using assms f by (simp add: send_def)
    then have "\<not> stuck (finish w)" using assms by simp
    from send_all_returns[OF this, of sb e] show ?thesis
      using True False s by (auto simp: Negotiate_deferred_def)
  next
    case nr: False
    then have "stuck (finish w)" using assms f by (simp add: send_def)
    then show ?thesis using nr False by (simp add: Negotiate_deferred_def send_all_stuck)
  qed
qed

lemma Negotiate_deferred_effect:
  assumes "\<not> stuck w" and "\<not> stuck (Negotiate_deferred False sb e w)"
  shows "waitPending (sg w) = [] \<Longrightarrow>
           sg (Negotiate_deferred False sb e w) = (sg w)\<lparr>state := signalerStateIdle\<rparr> \<and>
           sent (Negotiate_deferred False sb e w) = sent w @ map (\<lambda>c. (c, e)) sb"
    and "waitPending (sg w) \<noteq> [] \<Longrightarrow>
           sg (Negotiate_deferred False sb e w) = sg w \<and>
           sent (Negotiate_deferred False sb e w) =
             sent w @ (hd (waitPending (sg w)), None) # map (\<lambda>c. (c, e)) sb"
proof -
  assume e: "waitPending (sg w) = []"
  then have f: "finish w = w\<lparr>sg := (sg w)\<lparr>state := signalerStateIdle\<rparr>\<rparr>"
    using assms by (simp add: finish_def finish_lock_def)
  show "sg (Negotiate_deferred False sb e w) = (sg w)\<lparr>state := signalerStateIdle\<rparr> \<and>
           sent (Negotiate_deferred False sb e w) = sent w @ map (\<lambda>c. (c, e)) sb"
    using assms(2) send_all_sent[of sb e "finish w"]
    by (simp add: Negotiate_deferred_def send_all_sg f)
next
  assume ne: "waitPending (sg w) \<noteq> []"
  let ?h = "hd (waitPending (sg w))"
  have f: "finish w = send ?h None w" using ne assms
    by (simp add: finish_def finish_lock_def)
  have "ready w ?h" using Negotiate_deferred_returns[OF assms(1), of sb e] assms(2) ne by simp
  then have s: "finish w = w\<lparr>ready := (ready w)(?h := False), sent := sent w @ [(?h, None)]\<rparr>"
    using assms f by (simp add: send_def)
  show "sg (Negotiate_deferred False sb e w) = sg w \<and>
           sent (Negotiate_deferred False sb e w) =
             sent w @ (hd (waitPending (sg w)), None) # map (\<lambda>c. (c, e)) sb"
    using assms(2) send_all_sent[of sb e "finish w"]
    by (simp add: Negotiate_deferred_def send_all_sg s)
qed

section \<open>What the candidate exchange leaves untouched\<close>

lemma same_queues_refl: "same_queues x x"
  by (simp add: same_queues_def)

lemma same_queues_trans: "same_queues x y \<Longrightarrow> same_queues y z \<Longrightarrow> same_queues x z"
  by (simp add: same_queues_def)

lemma same_frame_refl: "same_frame w w"
  by (simp add: same_frame_def same_queues_refl)

lemma same_frame_trans: "same_frame a b \<Longrightarrow> same_frame b c \<Longrightarrow> same_frame a c"
  by (auto simp: same_frame_def intro: same_queues_trans)

lemma cstep_queues: "same_queues (sig (cstep fn ev cf)) (sig cf)"
  by (cases ev)
     (auto simp: cstep_def same_queues_def candidateHandle_def candidateProcess_lock_def
        consume_sig Let_def split: option.splits if_splits)

lemma crun_queues: "same_queues (sig (crun fn evs cf)) (sig cf)"
proof (induction evs arbitrary: cf)
  case Nil
  then show ?case by (simp add: crun_Nil same_queues_refl)
next
  case (Cons ev evs)
  show ?case using Cons[of "cstep fn ev cf"] cstep_queues[of fn ev cf]
    by (auto simp: crun_Cons intro: same_queues_trans)
qed

lemma candidateProcess_queues:
  assumes "candidateProcess fn evs x = Some r"
  shows "same_queues (after r) x"
proof -
  from candidateProcess_Some[OF assms] obtain cf where
    "candidateProcess_loop fn evs (cconf_start x) = Some (cf, rest r)" "after r = sig cf"
    by blast
  with loop_crun obtain pre where "cf = crun fn pre (cconf_start x)" by blast
  with crun_queues[of fn pre "cconf_start x"] \<open>after r = sig cf\<close>
  show ?thesis by (simp add: cconf_start_def)
qed

lemma candidates_run_frame: "same_frame (fst (candidates_run fn b w)) w"
proof (cases "stuck w")
  case True
  then show ?thesis by (simp add: candidates_run_def same_frame_refl)
next
  case False
  show ?thesis
  proof (cases "candidateProcess fn (events w) (sg w)")
    case None
    with False show ?thesis
      using crun_queues[of fn "events w" "cconf_start (sg w)"]
      by (simp add: candidates_run_def same_frame_def Let_def cconf_start_def)
  next
    case (Some r)
    with False show ?thesis
      using candidateProcess_queues[OF Some]
      by (simp add: candidates_run_def same_frame_def)
  qed
qed

lemma candidates_run_stuck: "stuck w \<Longrightarrow> stuck (fst (candidates_run fn b w))"
  by (simp add: candidates_run_def)

lemma discard_frame: "same_frame (world_candidateProcessDiscard w) w"
  by (simp add: world_candidateProcessDiscard_def candidates_run_frame)

lemma discard_stuck: "stuck w \<Longrightarrow> stuck (world_candidateProcessDiscard w)"
  by (simp add: world_candidateProcessDiscard_def candidates_run_stuck)

lemma Negotiate_candidates_frame: "same_frame (fst (Negotiate_candidates p answer w)) w"
proof (cases "SetRemoteDescription p (SessionDescription_Convert answer)")
  case None
  obtain w1 d e where s: "world_candidateProcessSend p w = (w1, d, e)"
    by (cases "world_candidateProcessSend p w") auto
  then have f: "same_frame w1 w"
    using candidates_run_frame[of "set_CandidateAdd p" True w]
    by (simp add: world_candidateProcessSend_def)
  show ?thesis using None s f discard_frame[of w1]
    by (auto simp: Negotiate_candidates_def intro: same_frame_trans)
next
  case (Some e)
  have "same_frame (w\<lparr>forwarded := forwarded w @ [[]]\<rparr>) w"
    by (simp add: same_frame_def same_queues_refl)
  with Some show ?thesis
    using discard_frame[of "w\<lparr>forwarded := forwarded w @ [[]]\<rparr>"]
    by (auto simp: Negotiate_candidates_def Let_def intro: same_frame_trans)
qed

lemma Negotiate_deferred_stuck: "stuck w \<Longrightarrow> Negotiate_deferred c sb e w = w"
  by (simp add: Negotiate_deferred_def finish_def send_all_stuck)

lemma conclude_Concluded:
  "conclude e w = (w', Concluded e') \<Longrightarrow> w' = w \<and> e' = e \<and> \<not> stuck w"
  by (auto simp: conclude_def split: if_splits)

text \<open>A negotiator that returns has run its deferred function on a world that differs
  from the one it started in at most in the candidate accumulator.\<close>

lemma Negotiate_active_Concluded:
  assumes "Negotiate_active render p ch sb w = (w', Concluded e)"
  shows "\<exists>w1. w' = Negotiate_deferred False sb e w1 \<and> \<not> stuck w' \<and> \<not> stuck w1 \<and> same_frame w1 w"
proof -
  let ?goal = "\<exists>w1. w' = Negotiate_deferred False sb e w1 \<and> \<not> stuck w' \<and> \<not> stuck w1 \<and> same_frame w1 w"
  have key: "\<And>w1 e1. conclude e1 (Negotiate_deferred False sb e1 w1) = (w', Concluded e) \<Longrightarrow>
      same_frame w1 w \<Longrightarrow> ?goal"
  proof -
    fix w1 e1
    assume c: "conclude e1 (Negotiate_deferred False sb e1 w1) = (w', Concluded e)"
      and f: "same_frame w1 w"
    from conclude_Concluded[OF c] have
      r: "w' = Negotiate_deferred False sb e1 w1" "e = e1" "\<not> stuck (Negotiate_deferred False sb e1 w1)"
      by auto
    then have "\<not> stuck w1" using Negotiate_deferred_stuck[of w1 False sb e1] by auto
    with r f show ?goal by auto
  qed
  obtain o1 oe where co: "CreateOffer p = (o1, oe)" by (cases "CreateOffer p") auto
  obtain a ae where sa: "set_Answer p (SessionDescriptionOf (alter p o1)) = (a, ae)"
    by (cases "set_Answer p (SessionDescriptionOf (alter p o1))") auto
  obtain w2 e2 where nc: "Negotiate_candidates p a w = (w2, e2)"
    by (cases "Negotiate_candidates p a w") auto
  have f2: "same_frame w2 w" using Negotiate_candidates_frame[of p a w] nc by simp
  show ?thesis
    using assms co sa nc f2 key same_frame_refl[of w]
    by (auto simp: Negotiate_active_def Let_def split: option.splits if_splits)
qed

lemma received_other: "c \<noteq> h \<Longrightarrow> received [(h, v)] c = []"
  by (simp add: received_def)

lemma finishAnswer_stuck: "stuck w \<Longrightarrow> finishAnswer e w = w"
  by (simp add: finishAnswer_def send_all_stuck finish_def)

lemma finish_stuck_iff: "stuck w \<Longrightarrow> stuck (finish w)"
  by (simp add: finish_def)

lemma finish_sent_keeps: "\<exists>post. sent (finish w) = sent w @ post"
  by (auto simp: finish_def send_def finish_lock_def)

section \<open>Example runs, evaluated\<close>

lemmas world_defs = world_of_def SignalerMake_def send_def finish_def finish_lock_def
  Negotiate_deferred_def conclude_def finishAnswer_def

lemma demo_down: "Negotiate_active render_demo peer_down 9 [1, 2] world_batch =
    (fst (Negotiate_active render_demo peer_down 9 [1, 2] world_batch),
     Concluded (Some (Simple ''unreachable'')))"
  by (simp add: Negotiate_active_def peer_down_def peer_ok_def world_batch_def alter_def
      conflictMessage_def world_defs Let_def)

lemma demo_resume: "Negotiate_resume [1, 2] None world_batch =
    (fst (Negotiate_resume [1, 2] None world_batch), Concluded None)"
  by (simp add: Negotiate_resume_def world_batch_def world_defs)

lemma demo_finishAnswer: "\<not> stuck world_simple \<and> \<not> stuck (finishAnswer None world_simple)"
  by (simp add: world_simple_def world_defs)

lemma demo_glare_offer:
  "CreateOffer peer_glare = (\<lparr>Type = 1, SDP = ''offer''\<rparr>, None) \<and>
   set_Answer peer_glare (SessionDescriptionOf (alter peer_glare \<lparr>Type = 1, SDP = ''offer''\<rparr>)) =
     (SessionDescription_zero, Some (Simple ''conflict''))"
  by (simp add: peer_glare_def peer_ok_def conflictMessage_def)

lemma demo_down_offer:
  "CreateOffer peer_down = (\<lparr>Type = 1, SDP = ''offer''\<rparr>, None) \<and>
   set_Answer peer_down (SessionDescriptionOf (alter peer_down \<lparr>Type = 1, SDP = ''offer''\<rparr>)) =
     (SessionDescription_zero, Some (Simple ''unreachable''))"
  by (simp add: peer_down_def peer_ok_def)

lemma send_all_sent_subset:
  "set (sent (send_all cs e w)) \<subseteq> set (sent w) \<union> (\<lambda>c. (c, e)) ` set cs"
proof (induction cs arbitrary: w)
  case Nil
  then show ?case by simp
next
  case (Cons c cs)
  have "set (sent (send c e w)) \<subseteq> set (sent w) \<union> {(c, e)}"
    by (auto simp: send_def)
  with Cons[of "send c e w"] show ?case by auto
qed

lemma finish_sent_subset:
  "set (sent (finish w)) \<subseteq> set (sent w) \<union> {(hd (waitPending (sg w)), None)}"
  by (auto simp: finish_def finish_lock_def send_def)

lemma finishAnswer_sent_subset:
  "set (sent (finishAnswer e w)) \<subseteq>
     set (sent w) \<union> (\<lambda>c. (c, e)) ` set (waitSimple (sg w)) \<union> {(hd (waitPending (sg w)), None)}"
proof -
  let ?w1 = "send_all (waitSimple (sg w)) e w"
  have "set (sent (finish ?w1)) \<subseteq> set (sent ?w1) \<union> {(hd (waitPending (sg ?w1)), None)}"
    by (rule finish_sent_subset)
  moreover have "sg ?w1 = sg w" by (rule send_all_sg)
  ultimately show ?thesis
    using send_all_sent_subset[of "waitSimple (sg w)" e w]
    by (auto simp: finishAnswer_def)
qed

lemma demo_reject_sent:
  "sent (run_task peer_ok RejectAnswer world_simple) =
     [(7, Some (Simple ''peer rejected answer'')), (9, Some (Simple ''peer rejected answer''))]"
  by (simp add: run_task_def world_candidateProcessDiscard_def candidates_run_def
      candidateProcess_def world_simple_def gather_two_def cconf_start_def
      cstep_def candidateHandle_def candidateProcess_lock_def consume_def CandidateOf_def
      Convert_def world_defs Let_def)

section \<open>The discard\<close>

lemmas cand_defs = candidates_run_def candidateProcess_def cconf_start_def cstep_def
  candidateHandle_def candidateProcess_lock_def consume_def CandidateOf_def Convert_def
  world_candidateProcessDiscard_def world_candidateProcessSend_def

lemma consume_discard_pc:
  "pc (consume (\<lambda>h c. None) c cf) = Top \<or> pc (consume (\<lambda>h c. None) c cf) = Returned True None"
  by (simp add: consume_def Let_def)

lemma cstep_discard_pc:
  "pc cf = Top \<or> pc cf = Waiting \<or> pc cf = Returned True None \<Longrightarrow>
   pc (cstep (\<lambda>h c. None) ev cf) = Top \<or> pc (cstep (\<lambda>h c. None) ev cf) = Waiting \<or>
   pc (cstep (\<lambda>h c. None) ev cf) = Returned True None"
  using consume_discard_pc
  by (cases ev) (auto simp: cstep_def candidateHandle_def candidateProcess_lock_def Let_def
      split: option.splits if_splits)

lemma loop_discard_pc:
  "candidateProcess_loop (\<lambda>h c. None) evs cf = Some (cf', evs') \<Longrightarrow>
   pc cf = Top \<or> pc cf = Waiting \<or> pc cf = Returned True None \<Longrightarrow>
   pc cf' = Returned True None"
proof (induction evs arbitrary: cf)
  case Nil
  then show ?case by (auto split: if_splits)
next
  case (Cons ev evs)
  show ?case
  proof (cases "returned (pc cf)")
    case True
    with Cons.prems show ?thesis by auto
  next
    case False
    with Cons.prems have "candidateProcess_loop (\<lambda>h c. None) evs (cstep (\<lambda>h c. None) ev cf) = Some (cf', evs')"
      by simp
    from Cons.IH[OF this cstep_discard_pc[OF Cons.prems(2)]] show ?thesis .
  qed
qed

lemma discard_done:
  "candidateProcess (\<lambda>h c. None) evs x = Some r \<Longrightarrow> cdone r \<and> cerr r = None"
proof -
  assume a: "candidateProcess (\<lambda>h c. None) evs x = Some r"
  from candidateProcess_Some[OF a] obtain cf where
    l: "candidateProcess_loop (\<lambda>h c. None) evs (cconf_start x) = Some (cf, rest r)"
    and p: "pc cf = Returned (cdone r) (cerr r)" by blast
  have "pc cf = Returned True None"
    using loop_discard_pc[OF l] by (simp add: cconf_start_def)
  with p show ?thesis by simp
qed

text \<open>What a run of the loop inside the world has consumed when it returns.\<close>

lemma candidates_run_account:
  assumes run: "candidates_run fn b w = (w1, d, e1)" and ns: "\<not> stuck w1" and inv: "cand_inv (sg w)"
  shows "\<exists>pre taken. events w = pre @ events w1 \<and>
           taken @ candidates (sg w1) = candidates (sg w) @ gathered pre \<and>
           (d \<longrightarrow> taken \<noteq> [] \<and> last taken = []) \<and> cand_inv (sg w1)"
proof -
  from run ns have nsw: "\<not> stuck w"
    by (auto simp: candidates_run_def)
  with run ns obtain r where r: "candidateProcess fn (events w) (sg w) = Some r"
    and w1: "sg w1 = after r" "events w1 = rest r" "d = cdone r"
    by (auto simp: candidates_run_def Let_def split: option.splits)
  from candidateProcess_account[OF r inv] obtain pre where
    pre: "events w = pre @ rest r"
      "concat (batches r) @ candidates (after r) = candidates (sg w) @ gathered pre"
    and ne: "\<forall>b \<in> set (batches r). b \<noteq> []"
    and sh: "shape (Returned (cdone r) (cerr r)) (batches r)"
    and ci: "cand_inv (after r)"
    by blast
  have "d \<longrightarrow> concat (batches r) \<noteq> [] \<and> last (concat (batches r)) = []"
  proof
    assume d
    with sh w1 have s: "shape (Returned True (cerr r)) (batches r)" by simp
    then have "batches r \<noteq> []" by simp
    with ne have "concat (batches r) \<noteq> []" by (cases "batches r") auto
    with shape_True_last[OF s ne] show "concat (batches r) \<noteq> [] \<and> last (concat (batches r)) = []"
      by simp
  qed
  with pre ci w1 show ?thesis by metis
qed

lemma discard_account:
  assumes ns: "\<not> stuck (world_candidateProcessDiscard w)" and inv: "cand_inv (sg w)"
  shows "\<exists>pre taken. events w = pre @ events (world_candidateProcessDiscard w) \<and>
           taken @ candidates (sg (world_candidateProcessDiscard w)) = candidates (sg w) @ gathered pre \<and>
           taken \<noteq> [] \<and> last taken = []"
proof -
  obtain w1 d e1 where run: "candidates_run (\<lambda>h c. None) False w = (w1, d, e1)"
    by (cases "candidates_run (\<lambda>h c. None) False w") auto
  then have eq: "world_candidateProcessDiscard w = w1"
    by (simp add: world_candidateProcessDiscard_def)
  with ns have ns1: "\<not> stuck w1" by simp
  with run have "\<not> stuck w" by (auto simp: candidates_run_def)
  with run ns1 obtain r where "candidateProcess (\<lambda>h c. None) (events w) (sg w) = Some r" "d = cdone r"
    by (auto simp: candidates_run_def Let_def split: option.splits)
  with discard_done have d by blast
  with candidates_run_account[OF run ns1 inv] eq show ?thesis by auto
qed

lemma demo_last_fails:
  "world_candidateProcessSend peer_last_fails (world_gathering gather_two) =
     ((world_gathering [])\<lparr>forwarded := [[''a'', []]]\<rparr>, True, Some (Simple ''broken pipe''))"
  by (simp add: cand_defs peer_last_fails_def peer_ok_def world_gathering_def gather_two_def
      world_of_def SignalerMake_def Let_def)

lemma demo_last_fails_discard:
  "stuck (world_candidateProcessDiscard ((world_gathering [])\<lparr>forwarded := [[''a'', []]]\<rparr>))"
  by (simp add: cand_defs world_gathering_def world_of_def SignalerMake_def Let_def crun_def)

lemma demo_last_fails_candidates:
  "Negotiate_candidates peer_last_fails answer_demo (world_gathering gather_two) =
     ((world_gathering [])\<lparr>forwarded := [[''a'', []]]\<rparr>, Some (Simple ''broken pipe''))"
proof -
  have "SetRemoteDescription peer_last_fails (SessionDescription_Convert answer_demo) = None"
    by (simp add: peer_last_fails_def peer_ok_def)
  then show ?thesis by (simp add: Negotiate_candidates_def demo_last_fails)
qed

lemma demo_send_fails:
  "world_candidateProcessSend peer_send_fails (world_gathering gather_split) =
     ((world_gathering [Gather None, Iterate])\<lparr>forwarded := [[''a'']]\<rparr>, False,
      Some (Simple ''broken pipe''))"
  by (simp add: cand_defs peer_send_fails_def peer_ok_def world_gathering_def gather_split_def
      world_of_def SignalerMake_def Let_def)

lemma demo_send_fails_candidates:
  "Negotiate_candidates peer_send_fails answer_demo (world_gathering gather_split) =
     ((world_gathering [])\<lparr>forwarded := [[''a'']]\<rparr>, Some (Simple ''broken pipe''))"
proof -
  have "SetRemoteDescription peer_send_fails (SessionDescription_Convert answer_demo) = None"
    by (simp add: peer_send_fails_def peer_ok_def)
  moreover have "world_candidateProcessDiscard
      ((world_gathering [Gather None, Iterate])\<lparr>forwarded := [[''a'']]\<rparr>) =
      (world_gathering [])\<lparr>forwarded := [[''a'']]\<rparr>"
    by (simp add: cand_defs world_gathering_def world_of_def SignalerMake_def Let_def)
  ultimately show ?thesis by (simp add: Negotiate_candidates_def demo_send_fails)
qed

lemma demo_remote_rejected_candidates:
  "Negotiate_candidates peer_remote_rejected answer_demo (world_gathering gather_two) =
     ((world_gathering [])\<lparr>forwarded := [[]]\<rparr>, Some (Simple ''bad description''))"
  by (simp add: Negotiate_candidates_def cand_defs peer_remote_rejected_def peer_ok_def
      world_gathering_def gather_two_def world_of_def SignalerMake_def Let_def)

lemma world_gathering_inv: "cand_inv (sg (world_gathering evs))"
  by (simp add: cand_inv_def world_gathering_def world_of_def SignalerMake_def)

text \<open>The two rounds of glare, step by step.\<close>

lemmas peer_defs = peer_ok_def peer_glare_def alter_def conflictMessage_def render_demo_def
  offer_demo_def

lemma glare1_offering_eq: "glare1_offering =
  \<lparr>sg = (SignalerMake False)\<lparr>state := signalerStateOffering\<rparr>, ready = (\<lambda>c. False), sent = [],
    events = gather_two @ gather_two, forwarded = [], priorityWait = False, spawned = [],
    stuck = False\<rparr>"
  by (simp add: glare1_offering_def world_of_def Negotiate_lock1_def SignalerMake_def)

lemma glare1_waiting_eq: "glare1_waiting = glare1_offering\<lparr>priorityWait := True\<rparr> \<and>
   snd (Answer peer_ok offer_demo glare1_offering) = None"
  by (simp add: glare1_waiting_def Answer_def glare1_offering_eq SignalerMake_def)

lemma glare1_conceded_eq: "glare1_conceded =
  \<lparr>sg = (SignalerMake False)\<lparr>state := signalerStateOffering, waitSimple := [7]\<rparr>,
    ready = (\<lambda>c. False)(7 := True), sent = [],
    events = gather_two @ gather_two, forwarded = [], priorityWait = False, spawned = [],
    stuck = False\<rparr> \<and>
   snd (Negotiate_active render_demo peer_glare 7 [] glare1_waiting) = Conceded []"
  by (auto simp add: glare1_conceded_def glare1_waiting_eq glare1_offering_eq Negotiate_active_def
      Negotiate_concede_def peer_defs SignalerMake_def Let_def)


lemma glare1_answered_eq: "glare1_answered =
  \<lparr>sg = (SignalerMake False)\<lparr>state := signalerStateAnswering, waitSimple := [7]\<rparr>,
    ready = (\<lambda>c. False)(7 := True), sent = [],
    events = gather_two @ gather_two, forwarded = [], priorityWait = False, spawned = [],
    stuck = False\<rparr> \<and>
   snd (Answer_proceed peer_ok offer_demo glare1_conceded) =
     (\<lparr>sdType = 3, sdString = ''answer''\<rparr>, None)"
  by (simp add: glare1_answered_def glare1_conceded_eq Answer_proceed_def peer_defs
      SessionDescriptionOf_def SignalerMake_def Let_def)

lemma glare1_finished_eq: "glare1_finished =
  \<lparr>sg = (SignalerMake False)\<lparr>waitSimple := [7]\<rparr>,
    ready = (\<lambda>c. False)(7 := False), sent = [(7, None)],
    events = gather_two, forwarded = [[''a'', []]], priorityWait = False, spawned = [],
    stuck = False\<rparr> \<and>
   snd (CandidateAdd peer_ok [''r'', []] glare1_answered) = Some None"
  by (simp add: glare1_finished_def CandidateAdd_def candidateAdd_finish_def run_task_def
      glare1_answered_eq cand_defs peer_ok_def gather_two_def world_defs SignalerMake_def Let_def)

lemma glare1_returned_eq: "glare1_returned = glare1_finished \<and>
   snd (Negotiate_resume [] None glare1_finished) = Concluded None"
  by (simp add: glare1_returned_def Negotiate_resume_def glare1_finished_eq world_defs)

lemma glare2_offering_eq: "glare2_offering =
  \<lparr>sg = (SignalerMake False)\<lparr>state := signalerStateOffering, waitSimple := [7]\<rparr>,
    ready = (\<lambda>c. False)(7 := False), sent = [(7, None)],
    events = gather_two, forwarded = [[''a'', []]], priorityWait = False, spawned = [],
    stuck = False\<rparr>"
  by (simp add: glare2_offering_def glare1_returned_eq glare1_finished_eq Negotiate_lock1_def
      SignalerMake_def)

lemma glare2_waiting_eq: "glare2_waiting = glare2_offering\<lparr>priorityWait := True\<rparr> \<and>
   snd (Answer peer_ok offer_demo glare2_offering) = None"
  by (simp add: glare2_waiting_def Answer_def glare2_offering_eq SignalerMake_def)

lemma glare2_conceded_eq: "glare2_conceded =
  \<lparr>sg = (SignalerMake False)\<lparr>state := signalerStateOffering, waitSimple := [7, 9]\<rparr>,
    ready = (\<lambda>c. False)(7 := False, 9 := True), sent = [(7, None)],
    events = gather_two, forwarded = [[''a'', []]], priorityWait = False, spawned = [],
    stuck = False\<rparr> \<and>
   snd (Negotiate_active render_demo peer_glare 9 [] glare2_waiting) = Conceded []"
  by (simp add: glare2_conceded_def glare2_waiting_eq glare2_offering_eq Negotiate_active_def
      Negotiate_concede_def peer_defs SignalerMake_def Let_def)

lemma glare2_answered_eq: "glare2_answered =
  \<lparr>sg = (SignalerMake False)\<lparr>state := signalerStateAnswering, waitSimple := [7, 9]\<rparr>,
    ready = (\<lambda>c. False)(7 := False, 9 := True), sent = [(7, None)],
    events = gather_two, forwarded = [[''a'', []]], priorityWait = False, spawned = [],
    stuck = False\<rparr> \<and>
   snd (Answer_proceed peer_ok offer_demo glare2_conceded) =
     (\<lparr>sdType = 3, sdString = ''answer''\<rparr>, None)"
  by (simp add: glare2_answered_def glare2_conceded_eq Answer_proceed_def peer_defs
      SessionDescriptionOf_def SignalerMake_def Let_def)

lemma glare2_rejected_eq: "glare2_rejected = glare2_answered\<lparr>events := [], stuck := True\<rparr>"
  by (simp add: glare2_rejected_def glare2_answered_eq CandidateAdd_def run_task_def
      cand_defs peer_ok_def gather_two_def world_defs SignalerMake_def Let_def)

text \<open>With a receiver on every channel of \<open>waitSimple\<close>, the rejecting goroutine does what
  is expected of it once the discard has returned.\<close>

lemma finishAnswer_returns:
  assumes ns: "\<not> stuck w" and d: "distinct (waitSimple (sg w))"
    and r: "\<forall>c \<in> set (waitSimple (sg w)). ready w c"
    and h: "waitPending (sg w) \<noteq> [] \<longrightarrow>
       ready w (hd (waitPending (sg w))) \<and> hd (waitPending (sg w)) \<notin> set (waitSimple (sg w))"
  shows "\<not> stuck (finishAnswer e w) \<and>
     sent (finishAnswer e w) = sent w @ map (\<lambda>c. (c, e)) (waitSimple (sg w)) @
       (if waitPending (sg w) = [] then [] else [(hd (waitPending (sg w)), None)]) \<and>
     state (sg (finishAnswer e w)) =
       (if waitPending (sg w) = [] then signalerStateIdle else state (sg w))"
proof -
  let ?ws = "waitSimple (sg w)"
  let ?w1 = "send_all ?ws e w"
  have ns1: "\<not> stuck ?w1" using send_all_returns[OF ns, of ?ws e] d r by simp
  have s1: "sent ?w1 = sent w @ map (\<lambda>c. (c, e)) ?ws" using send_all_sent[OF ns1] .
  have r1: "ready ?w1 = (\<lambda>c. ready w c \<and> c \<notin> set ?ws)" using send_all_ready[OF ns1] .
  have g1: "sg ?w1 = sg w" by (rule send_all_sg)
  show ?thesis
    using ns1 s1 r1 g1 h
    by (auto simp: finishAnswer_def finish_def finish_lock_def send_def)
qed

text \<open>A sentinel that stands only in last place\<close>

lemma sentinel_last_only:
  assumes acc: "F @ C = S" and ne: "F \<noteq> []" and l: "last F = []"
    and only: "[] \<notin> set (butlast S)"
  shows "C = [] \<and> [] \<notin> set (butlast F)"
proof -
  have c: "C = []"
  proof (rule ccontr)
    assume "C \<noteq> []"
    then have "butlast (F @ C) = F @ butlast C" by (simp add: butlast_append)
    moreover have "last F \<in> set F" using ne by simp
    ultimately have "[] \<in> set (butlast S)" using acc l by auto
    with only show False by simp
  qed
  with acc only show ?thesis by simp
qed

lemma after_sentinel_run:
  "candidateProcessSend (\<lambda>h c. None) ev_after_sentinel (SignalerMake False) =
   Some \<lparr>cdone = True, cerr = None, after = SignalerMake False,
     batches = [[''a'', [], ''b''], [[]]], rest = []\<rparr>"
  by (simp add: candidateProcessSend_def candidateProcess_def ev_after_sentinel_def cconf_start_def
      cstep_def candidateHandle_def candidateProcess_lock_def consume_def CandidateOf_def
      Convert_def SignalerMake_def Let_def)


section \<open>The invariant of the concurrent callers\<close>

lemmas ninv_defs = ninv_def inv_leader_def inv_pending_def inv_active_def inv_deliver_def
  inv_result_def inv_rounds_def leader_def in_round_def served_def

lemma ninv_start: "ninv (nstate_start (SignalerMake p))"
  by (simp add: ninv_defs nstate_start_def SignalerMake_def)


lemma leader_unique: "inv_leader s \<Longrightarrow> leader s t \<Longrightarrow> leader s t' \<Longrightarrow> t = t'"
  unfolding inv_leader_def by blast

lemma idle_no_leader: "inv_leader s \<Longrightarrow> state (nsig s) = signalerStateIdle \<Longrightarrow> \<not> leader s t"
  unfolding inv_leader_def by blast

lemma idle_no_pending: "inv_leader s \<Longrightarrow> state (nsig s) = signalerStateIdle \<Longrightarrow> waitPending (nsig s) = []"
  unfolding inv_leader_def by blast

lemma pending_pc: "inv_pending s \<Longrightarrow> c \<in> set (waitPending (nsig s)) \<Longrightarrow>
    npc s c = NBlocked \<or> ((\<exists>e. npc s c = NWoken e) \<and> c = hd (waitPending (nsig s)))"
  unfolding inv_pending_def by blast

lemma pending_fresh: "inv_pending s \<Longrightarrow> c \<in> set (waitPending (nsig s)) \<Longrightarrow> \<not> in_round s c"
  unfolding inv_pending_def by blast

lemma pending_distinct: "inv_pending s \<Longrightarrow> distinct (waitPending (nsig s))"
  unfolding inv_pending_def by blast

lemma active_batch: "inv_active s \<Longrightarrow> npc s t = NActive b \<Longrightarrow> c \<in> set b \<Longrightarrow>
    npc s c = NBlocked \<and> \<not> in_round s c \<and> c \<notin> set (waitPending (nsig s))"
  unfolding inv_active_def by blast

lemma active_self: "inv_active s \<Longrightarrow> npc s t = NActive b \<Longrightarrow> distinct (t # b) \<and> \<not> in_round s t"
  unfolding inv_active_def by blast

lemma deliver_round: "inv_deliver s \<Longrightarrow> npc s h = NDeliver cs e \<Longrightarrow>
    \<exists>pre. (h, pre @ cs, e) \<in> set (rounds s)"
  unfolding inv_deliver_def by blast

lemma deliver_batch: "inv_deliver s \<Longrightarrow> npc s h = NDeliver cs e \<Longrightarrow> c \<in> set cs \<Longrightarrow>
    npc s c = NBlocked \<and> c \<notin> set (waitPending (nsig s))"
  unfolding inv_deliver_def by blast

lemma woken_result: "inv_result s \<Longrightarrow> npc s t = NWoken e \<Longrightarrow> leader s t \<or> served s t e"
  unfolding inv_result_def by blast

lemma returned_result: "inv_result s \<Longrightarrow> npc s t = NReturned e \<Longrightarrow> served s t e"
  unfolding inv_result_def by blast

lemma init_fresh: "inv_rounds s \<Longrightarrow> npc s t = NInit \<Longrightarrow>
    t \<notin> set (waitPending (nsig s)) \<and> \<not> in_round s t"
  unfolding inv_rounds_def by blast

lemma rounds_distinct: "inv_rounds s \<Longrightarrow> distinct (concat (map members (rounds s)))"
  unfolding inv_rounds_def by blast

lemma members_disjoint:
  "distinct (concat (map members rs)) \<Longrightarrow> r1 \<in> set rs \<Longrightarrow> r2 \<in> set rs \<Longrightarrow> r1 \<noteq> r2 \<Longrightarrow>
     set (members r1) \<inter> set (members r2) = {}"
proof (induction rs)
  case Nil
  then show ?case by simp
next
  case (Cons r rs)
  from Cons.prems(1) have d: "distinct (concat (map members rs))"
    and x: "set (members r) \<inter> (\<Union>q \<in> set rs. set (members q)) = {}"
    by auto
  show ?case
  proof (cases "r1 = r")
    case True
    with Cons.prems have "r2 \<in> set rs" by auto
    with x True show ?thesis by blast
  next
    case False
    with Cons.prems have r1: "r1 \<in> set rs" by auto
    show ?thesis
    proof (cases "r2 = r")
      case True
      with x r1 show ?thesis by blast
    next
      case False
      with Cons.prems have "r2 \<in> set rs" by auto
      from Cons.IH[OF d r1 this Cons.prems(4)] show ?thesis .
    qed
  qed
qed

lemma round_members_distinct:
  "distinct (concat (map members rs)) \<Longrightarrow> r \<in> set rs \<Longrightarrow> distinct (members r)"
  by (induction rs) auto

lemma ninvD:
  assumes "ninv s"
  shows "inv_leader s" "inv_pending s" "inv_active s" "inv_deliver s" "inv_result s" "inv_rounds s"
  using assms unfolding ninv_def by blast+

lemma ninvI:
  "inv_leader s \<Longrightarrow> inv_pending s \<Longrightarrow> inv_active s \<Longrightarrow> inv_deliver s \<Longrightarrow> inv_result s \<Longrightarrow>
   inv_rounds s \<Longrightarrow> ninv s"
  unfolding ninv_def by blast

lemma leader_Active: "npc s t = NActive b \<Longrightarrow> leader s t"
  unfolding leader_def by blast

text \<open>Resume, leaving\<close>

lemma Resume_leave:
  assumes i: "ninv s" and p: "npc s t = NWoken e"
    and b: "waitPending (nsig s) = [] \<or> hd (waitPending (nsig s)) \<noteq> t"
  shows "ninv (s\<lparr>npc := (npc s)(t := NReturned e)\<rparr>)"
proof -
  let ?s = "s\<lparr>npc := (npc s)(t := NReturned e)\<rparr>"
  from i have il: "inv_leader s" and ip: "inv_pending s" and ia: "inv_active s"
    and id: "inv_deliver s" and ir: "inv_result s" and io: "inv_rounds s"
    unfolding ninv_def by blast+
  have nl: "\<not> leader s t" using p b by (auto simp: leader_def)
  have l: "\<And>x. leader ?s x = leader s x" using p b by (auto simp: leader_def)
  have r: "\<And>x. in_round ?s x = in_round s x" "\<And>x v. served ?s x v = served s x v"
    by (simp_all add: in_round_def served_def)
  have tw: "t \<notin> set (waitPending (nsig s))" using pending_pc[OF ip, of t] p b by auto
  have 1: "inv_leader ?s" using il by (simp add: inv_leader_def l)
  have 2: "inv_pending ?s" using ip tw by (auto simp: inv_pending_def r)
  have 3: "inv_active ?s"
    unfolding inv_active_def
  proof (intro allI impI)
    fix u b assume "npc ?s u = NActive b"
    then have u: "npc s u = NActive b" by (simp split: if_splits)
    have m: "\<forall>c \<in> set b. c \<noteq> t" using active_batch[OF ia u] p by auto
    show "distinct (u # b) \<and> \<not> in_round ?s u \<and>
       (\<forall>c \<in> set b. npc ?s c = NBlocked \<and> \<not> in_round ?s c \<and> c \<notin> set (waitPending (nsig ?s)))"
      using active_self[OF ia u] active_batch[OF ia u] m by (simp add: r)
  qed
  have 4: "inv_deliver ?s"
    unfolding inv_deliver_def
  proof (intro allI impI)
    fix h cs v assume "npc ?s h = NDeliver cs v"
    then have u: "npc s h = NDeliver cs v" by (simp split: if_splits)
    have m: "\<forall>c \<in> set cs. c \<noteq> t" using deliver_batch[OF id u] p by auto
    show "(\<exists>pre. (h, pre @ cs, v) \<in> set (rounds ?s)) \<and>
       (\<forall>c \<in> set cs. npc ?s c = NBlocked \<and> c \<notin> set (waitPending (nsig ?s)))"
      using deliver_round[OF id u] deliver_batch[OF id u] m by simp
  qed
  have 5: "inv_result ?s"
    unfolding inv_result_def
  proof (intro conjI allI impI)
    fix u v assume "npc ?s u = NWoken v"
    then have "npc s u = NWoken v" by (simp split: if_splits)
    from woken_result[OF ir this] show "leader ?s u \<or> served ?s u v" by (simp add: l r)
  next
    fix u v assume a: "npc ?s u = NReturned v"
    show "served ?s u v"
    proof (cases "u = t")
      case True
      with a have "v = e" by simp
      with woken_result[OF ir p] nl True show ?thesis by (simp add: r)
    next
      case False
      with a have "npc s u = NReturned v" by simp
      from returned_result[OF ir this] show ?thesis by (simp add: r)
    qed
  qed
  have 6: "inv_rounds ?s"
    unfolding inv_rounds_def
  proof (rule conjI, goal_cases)
    case 1
    show ?case using rounds_distinct[OF io] by simp
  next
    case 2
    show ?case
    proof (intro allI impI)
      fix u assume "npc ?s u = NInit"
      then have "npc s u = NInit" by (simp split: if_splits)
      from init_fresh[OF io this]
      show "u \<notin> set (waitPending (nsig ?s)) \<and> \<not> in_round ?s u" by (simp add: r)
    qed
  qed
  show ?thesis using 1 2 3 4 5 6 by (rule ninvI)
qed


text \<open>Resume, leading\<close>

lemma Resume_lead:
  assumes i: "ninv s" and p: "npc s t = NWoken e"
    and ne: "waitPending (nsig s) \<noteq> []" and hd: "hd (waitPending (nsig s)) = t"
  shows "ninv (s\<lparr>nsig := (nsig s)\<lparr>waitPending := [], state := signalerStateOffering\<rparr>,
                 npc := (npc s)(t := NActive (tl (waitPending (nsig s))))\<rparr>)"
proof -
  let ?wp = "waitPending (nsig s)"
  let ?s = "s\<lparr>nsig := (nsig s)\<lparr>waitPending := [], state := signalerStateOffering\<rparr>,
                 npc := (npc s)(t := NActive (tl ?wp))\<rparr>"
  note il = ninvD(1)[OF i] and ip = ninvD(2)[OF i] and ia = ninvD(3)[OF i]
    and id = ninvD(4)[OF i] and ir = ninvD(5)[OF i] and io = ninvD(6)[OF i]
  have lt: "leader s t" using p ne hd unfolding leader_def by blast
  have wp: "?wp = t # tl ?wp" using ne hd by (cases ?wp) auto
  have tin: "t \<in> set ?wp" using wp by (metis list.set_intros(1))
  have only: "\<And>x. leader s x \<Longrightarrow> x = t" using leader_unique[OF il _ lt] by blast
  have l: "\<And>x. leader ?s x = (x = t)"
  proof -
    fix x show "leader ?s x = (x = t)"
    proof (cases "x = t")
      case True then show ?thesis by (simp add: leader_def)
    next
      case False
      have "\<not> leader ?s x"
      proof
        assume "leader ?s x"
        with False obtain b where "npc s x = NActive b" by (auto simp: leader_def)
        with only[OF leader_Active] False show False by blast
      qed
      with False show ?thesis by simp
    qed
  qed
  have r: "\<And>x. in_round ?s x = in_round s x" "\<And>x v. served ?s x v = served s x v"
    by (simp_all add: in_round_def served_def)
  have 1: "inv_leader ?s" unfolding inv_leader_def by (simp add: l)
  have 2: "inv_pending ?s" unfolding inv_pending_def by simp
  have 3: "inv_active ?s"
    unfolding inv_active_def
  proof (intro allI impI)
    fix u b assume a: "npc ?s u = NActive b"
    have ut: "u = t"
    proof (rule ccontr)
      assume "u \<noteq> t"
      with a have "npc s u = NActive b" by simp
      with only[OF leader_Active] \<open>u \<noteq> t\<close> show False by blast
    qed
    with a have b: "b = tl ?wp" by simp
    have d: "distinct (t # tl ?wp)" using pending_distinct[OF ip] wp by metis
    have m: "\<forall>c \<in> set (tl ?wp). npc s c = NBlocked \<and> \<not> in_round s c \<and> c \<noteq> t"
    proof
      fix c assume c: "c \<in> set (tl ?wp)"
      then have cin: "c \<in> set ?wp" using wp by (metis list.set_intros(2))
      have ct: "c \<noteq> t" using d c by auto
      with pending_pc[OF ip cin] hd pending_fresh[OF ip cin]
      show "npc s c = NBlocked \<and> \<not> in_round s c \<and> c \<noteq> t" by auto
    qed
    show "distinct (u # b) \<and> \<not> in_round ?s u \<and>
       (\<forall>c \<in> set b. npc ?s c = NBlocked \<and> \<not> in_round ?s c \<and> c \<notin> set (waitPending (nsig ?s)))"
      using ut b d m pending_fresh[OF ip tin] by (simp add: r)
  qed
  have 4: "inv_deliver ?s"
    unfolding inv_deliver_def
  proof (intro allI impI)
    fix h cs v assume "npc ?s h = NDeliver cs v"
    then have u: "npc s h = NDeliver cs v" by (simp split: if_splits)
    have m: "\<forall>c \<in> set cs. c \<noteq> t" using deliver_batch[OF id u] p by auto
    show "(\<exists>pre. (h, pre @ cs, v) \<in> set (rounds ?s)) \<and>
       (\<forall>c \<in> set cs. npc ?s c = NBlocked \<and> c \<notin> set (waitPending (nsig ?s)))"
      using deliver_round[OF id u] deliver_batch[OF id u] m by simp
  qed
  have 5: "inv_result ?s"
    unfolding inv_result_def
  proof (rule conjI, goal_cases)
    case 1
    show ?case
    proof (intro allI impI)
      fix u v assume "npc ?s u = NWoken v"
      then have u: "npc s u = NWoken v" "u \<noteq> t" by (auto split: if_splits)
      with woken_result[OF ir u(1)] only show "leader ?s u \<or> served ?s u v"
        by (auto simp: r)
    qed
  next
    case 2
    show ?case
    proof (intro allI impI)
      fix u v assume "npc ?s u = NReturned v"
      then have "npc s u = NReturned v" by (simp split: if_splits)
      from returned_result[OF ir this] show "served ?s u v" by (simp add: r)
    qed
  qed
  have 6: "inv_rounds ?s"
    unfolding inv_rounds_def
  proof (rule conjI, goal_cases)
    case 1
    show ?case using rounds_distinct[OF io] by simp
  next
    case 2
    show ?case
    proof (intro allI impI)
      fix u assume "npc ?s u = NInit"
      then have "npc s u = NInit" by (simp split: if_splits)
      from init_fresh[OF io this]
      show "u \<notin> set (waitPending (nsig ?s)) \<and> \<not> in_round ?s u" by (simp add: r)
    qed
  qed
  show ?thesis using 1 2 3 4 5 6 by (rule ninvI)
qed

text \<open>Call on an idle Signaler\<close>

lemma Call_idle:
  assumes i: "ninv s" and p: "npc s t = NInit" and st: "state (nsig s) = signalerStateIdle"
  shows "ninv (s\<lparr>nsig := (nsig s)\<lparr>state := signalerStateOffering\<rparr>,
                 npc := (npc s)(t := NActive [])\<rparr>)"
proof -
  let ?s = "s\<lparr>nsig := (nsig s)\<lparr>state := signalerStateOffering\<rparr>, npc := (npc s)(t := NActive [])\<rparr>"
  note il = ninvD(1)[OF i] and ip = ninvD(2)[OF i] and ia = ninvD(3)[OF i]
    and id = ninvD(4)[OF i] and ir = ninvD(5)[OF i] and io = ninvD(6)[OF i]
  have none: "\<And>x. \<not> leader s x" using idle_no_leader[OF il st] by blast
  have wp: "waitPending (nsig s) = []" using idle_no_pending[OF il st] .
  have l: "\<And>x. leader ?s x = (x = t)"
  proof -
    fix x show "leader ?s x = (x = t)"
    proof (cases "x = t")
      case True then show ?thesis by (simp add: leader_def)
    next
      case False
      have "\<not> leader ?s x"
      proof
        assume "leader ?s x"
        with False wp obtain b where "npc s x = NActive b" by (auto simp: leader_def)
        with none leader_Active show False by blast
      qed
      with False show ?thesis by simp
    qed
  qed
  have r: "\<And>x. in_round ?s x = in_round s x" "\<And>x v. served ?s x v = served s x v"
    by (simp_all add: in_round_def served_def)
  have 1: "inv_leader ?s" unfolding inv_leader_def by (simp add: l)
  have 2: "inv_pending ?s" unfolding inv_pending_def by (simp add: wp)
  have 3: "inv_active ?s"
    unfolding inv_active_def
  proof (intro allI impI)
    fix u b assume a: "npc ?s u = NActive b"
    have ut: "u = t"
    proof (rule ccontr)
      assume "u \<noteq> t"
      with a have "npc s u = NActive b" by simp
      with none leader_Active show False by blast
    qed
    with a have b: "b = []" by simp
    show "distinct (u # b) \<and> \<not> in_round ?s u \<and>
       (\<forall>c \<in> set b. npc ?s c = NBlocked \<and> \<not> in_round ?s c \<and> c \<notin> set (waitPending (nsig ?s)))"
      using ut b init_fresh[OF io p] by (simp add: r)
  qed
  have 4: "inv_deliver ?s"
    unfolding inv_deliver_def
  proof (intro allI impI)
    fix h cs v assume "npc ?s h = NDeliver cs v"
    then have u: "npc s h = NDeliver cs v" by (simp split: if_splits)
    have m: "\<forall>c \<in> set cs. c \<noteq> t" using deliver_batch[OF id u] p by auto
    show "(\<exists>pre. (h, pre @ cs, v) \<in> set (rounds ?s)) \<and>
       (\<forall>c \<in> set cs. npc ?s c = NBlocked \<and> c \<notin> set (waitPending (nsig ?s)))"
      using deliver_round[OF id u] deliver_batch[OF id u] m by simp
  qed
  have 5: "inv_result ?s"
    unfolding inv_result_def
  proof (rule conjI, goal_cases)
    case 1
    show ?case
    proof (intro allI impI)
      fix u v assume "npc ?s u = NWoken v"
      then have u: "npc s u = NWoken v" by (auto split: if_splits)
      with woken_result[OF ir u] none show "leader ?s u \<or> served ?s u v"
        by (auto simp: r)
    qed
  next
    case 2
    show ?case
    proof (intro allI impI)
      fix u v assume "npc ?s u = NReturned v"
      then have "npc s u = NReturned v" by (simp split: if_splits)
      from returned_result[OF ir this] show "served ?s u v" by (simp add: r)
    qed
  qed
  have 6: "inv_rounds ?s"
    unfolding inv_rounds_def
  proof (rule conjI, goal_cases)
    case 1
    show ?case using rounds_distinct[OF io] by simp
  next
    case 2
    show ?case
    proof (intro allI impI)
      fix u assume "npc ?s u = NInit"
      then have "npc s u = NInit" by (simp split: if_splits)
      from init_fresh[OF io this]
      show "u \<notin> set (waitPending (nsig ?s)) \<and> \<not> in_round ?s u" by (simp add: r)
    qed
  qed
  show ?thesis using 1 2 3 4 5 6 by (rule ninvI)
qed

text \<open>Call on a busy Signaler\<close>

lemma Call_queue:
  assumes i: "ninv s" and p: "npc s t = NInit" and st: "state (nsig s) \<noteq> signalerStateIdle"
  shows "ninv (s\<lparr>nsig := (nsig s)\<lparr>waitPending := waitPending (nsig s) @ [t]\<rparr>,
                 npc := (npc s)(t := NBlocked)\<rparr>)"
proof -
  let ?wp = "waitPending (nsig s)"
  let ?s = "s\<lparr>nsig := (nsig s)\<lparr>waitPending := ?wp @ [t]\<rparr>, npc := (npc s)(t := NBlocked)\<rparr>"
  note il = ninvD(1)[OF i] and ip = ninvD(2)[OF i] and ia = ninvD(3)[OF i]
    and id = ninvD(4)[OF i] and ir = ninvD(5)[OF i] and io = ninvD(6)[OF i]
  have tw: "t \<notin> set ?wp" "\<not> in_round s t" using init_fresh[OF io p] by auto
  have hd: "?wp \<noteq> [] \<Longrightarrow> hd (?wp @ [t]) = hd ?wp" by simp
  have l: "\<And>x. leader ?s x = leader s x"
  proof -
    fix x show "leader ?s x = leader s x"
    proof (cases "x = t")
      case True with p show ?thesis by (simp add: leader_def)
    next
      case False
      show ?thesis
      proof (cases "?wp = []")
        case True with False show ?thesis by (simp add: leader_def)
      next
        case ne: False with False show ?thesis by (simp add: leader_def)
      qed
    qed
  qed
  have r: "\<And>x. in_round ?s x = in_round s x" "\<And>x v. served ?s x v = served s x v"
    by (simp_all add: in_round_def served_def)
  have 1: "inv_leader ?s" using il st unfolding inv_leader_def by (simp add: l)
  have 2: "inv_pending ?s"
    unfolding inv_pending_def
  proof (rule conjI, goal_cases)
    case 1
    show ?case using pending_distinct[OF ip] tw by simp
  next
    case 2
    show ?case
    proof
      fix c assume "c \<in> set (waitPending (nsig ?s))"
      then have c: "c \<in> set ?wp \<or> c = t" by auto
      show "(npc ?s c = NBlocked \<or> ((\<exists>e. npc ?s c = NWoken e) \<and> c = hd (waitPending (nsig ?s)))) \<and>
          \<not> in_round ?s c"
      proof (cases "c = t")
        case True
        with tw show ?thesis by (simp add: r)
      next
        case False
        with c have cin: "c \<in> set ?wp" by simp
        then have "?wp \<noteq> []" by auto
        with pending_pc[OF ip cin] pending_fresh[OF ip cin] False hd
        show ?thesis by (auto simp: r)
      qed
    qed
  qed
  have 3: "inv_active ?s"
    unfolding inv_active_def
  proof (intro allI impI)
    fix u b assume "npc ?s u = NActive b"
    then have u: "npc s u = NActive b" by (simp split: if_splits)
    have m: "\<forall>c \<in> set b. c \<noteq> t" using active_batch[OF ia u] p by auto
    show "distinct (u # b) \<and> \<not> in_round ?s u \<and>
       (\<forall>c \<in> set b. npc ?s c = NBlocked \<and> \<not> in_round ?s c \<and> c \<notin> set (waitPending (nsig ?s)))"
      using active_self[OF ia u] active_batch[OF ia u] m by (simp add: r)
  qed
  have 4: "inv_deliver ?s"
    unfolding inv_deliver_def
  proof (intro allI impI)
    fix h cs v assume "npc ?s h = NDeliver cs v"
    then have u: "npc s h = NDeliver cs v" by (simp split: if_splits)
    have m: "\<forall>c \<in> set cs. c \<noteq> t" using deliver_batch[OF id u] p by auto
    show "(\<exists>pre. (h, pre @ cs, v) \<in> set (rounds ?s)) \<and>
       (\<forall>c \<in> set cs. npc ?s c = NBlocked \<and> c \<notin> set (waitPending (nsig ?s)))"
      using deliver_round[OF id u] deliver_batch[OF id u] m by simp
  qed
  have 5: "inv_result ?s"
    unfolding inv_result_def
  proof (rule conjI, goal_cases)
    case 1
    show ?case
    proof (intro allI impI)
      fix u v assume "npc ?s u = NWoken v"
      then have u: "npc s u = NWoken v" by (auto split: if_splits)
      with woken_result[OF ir u] show "leader ?s u \<or> served ?s u v"
        by (auto simp: r l)
    qed
  next
    case 2
    show ?case
    proof (intro allI impI)
      fix u v assume "npc ?s u = NReturned v"
      then have "npc s u = NReturned v" by (simp split: if_splits)
      from returned_result[OF ir this] show "served ?s u v" by (simp add: r)
    qed
  qed
  have 6: "inv_rounds ?s"
    unfolding inv_rounds_def
  proof (rule conjI, goal_cases)
    case 1
    show ?case using rounds_distinct[OF io] by simp
  next
    case 2
    show ?case
    proof (intro allI impI)
      fix u assume a: "npc ?s u = NInit"
      then have "u \<noteq> t" by auto
      with a have "npc s u = NInit" by simp
      from init_fresh[OF io this] \<open>u \<noteq> t\<close>
      show "u \<notin> set (waitPending (nsig ?s)) \<and> \<not> in_round ?s u" by (simp add: r)
    qed
  qed
  show ?thesis using 1 2 3 4 5 6 by (rule ninvI)
qed

text \<open>Pass, the loop of the deferred function is over\<close>

lemma Pass_return:
  assumes i: "ninv s" and p: "npc s t = NDeliver [] e"
  shows "ninv (s\<lparr>npc := (npc s)(t := NReturned e)\<rparr>)"
proof -
  let ?s = "s\<lparr>npc := (npc s)(t := NReturned e)\<rparr>"
  note il = ninvD(1)[OF i] and ip = ninvD(2)[OF i] and ia = ninvD(3)[OF i]
    and id = ninvD(4)[OF i] and ir = ninvD(5)[OF i] and io = ninvD(6)[OF i]
  have l: "\<And>x. leader ?s x = leader s x" using p by (auto simp: leader_def)
  have r: "\<And>x. in_round ?s x = in_round s x" "\<And>x v. served ?s x v = served s x v"
    by (simp_all add: in_round_def served_def)
  have tw: "t \<notin> set (waitPending (nsig s))" using pending_pc[OF ip, of t] p by auto
  have sv: "served s t e"
  proof -
    from deliver_round[OF id p] obtain pre where "(t, pre @ [], e) \<in> set (rounds s)" by blast
    then show ?thesis unfolding served_def by force
  qed
  have 1: "inv_leader ?s" using il by (simp add: inv_leader_def l)
  have 2: "inv_pending ?s" using ip tw by (auto simp: inv_pending_def r)
  have 3: "inv_active ?s"
    unfolding inv_active_def
  proof (intro allI impI)
    fix u b assume "npc ?s u = NActive b"
    then have u: "npc s u = NActive b" by (simp split: if_splits)
    have m: "\<forall>c \<in> set b. c \<noteq> t" using active_batch[OF ia u] p by auto
    show "distinct (u # b) \<and> \<not> in_round ?s u \<and>
       (\<forall>c \<in> set b. npc ?s c = NBlocked \<and> \<not> in_round ?s c \<and> c \<notin> set (waitPending (nsig ?s)))"
      using active_self[OF ia u] active_batch[OF ia u] m by (simp add: r)
  qed
  have 4: "inv_deliver ?s"
    unfolding inv_deliver_def
  proof (intro allI impI)
    fix h cs v assume "npc ?s h = NDeliver cs v"
    then have u: "npc s h = NDeliver cs v" by (simp split: if_splits)
    have m: "\<forall>c \<in> set cs. c \<noteq> t" using deliver_batch[OF id u] p by auto
    show "(\<exists>pre. (h, pre @ cs, v) \<in> set (rounds ?s)) \<and>
       (\<forall>c \<in> set cs. npc ?s c = NBlocked \<and> c \<notin> set (waitPending (nsig ?s)))"
      using deliver_round[OF id u] deliver_batch[OF id u] m by simp
  qed
  have 5: "inv_result ?s"
    unfolding inv_result_def
  proof (rule conjI, goal_cases)
    case 1
    show ?case
    proof (intro allI impI)
      fix u v assume "npc ?s u = NWoken v"
      then have "npc s u = NWoken v" by (simp split: if_splits)
      from woken_result[OF ir this] show "leader ?s u \<or> served ?s u v" by (simp add: l r)
    qed
  next
    case 2
    show ?case
    proof (intro allI impI)
      fix u v assume a: "npc ?s u = NReturned v"
      show "served ?s u v"
      proof (cases "u = t")
        case True
        with a have "v = e" by simp
        with sv True show ?thesis by (simp add: r)
      next
        case False
        with a have "npc s u = NReturned v" by simp
        from returned_result[OF ir this] show ?thesis by (simp add: r)
      qed
    qed
  qed
  have 6: "inv_rounds ?s"
    unfolding inv_rounds_def
  proof (rule conjI, goal_cases)
    case 1
    show ?case using rounds_distinct[OF io] by simp
  next
    case 2
    show ?case
    proof (intro allI impI)
      fix u assume "npc ?s u = NInit"
      then have "npc s u = NInit" by (simp split: if_splits)
      from init_fresh[OF io this]
      show "u \<notin> set (waitPending (nsig ?s)) \<and> \<not> in_round ?s u" by (simp add: r)
    qed
  qed
  show ?thesis using 1 2 3 4 5 6 by (rule ninvI)
qed

text \<open>Pass, a send of the deferred function\<close>

lemma Pass_send:
  assumes i: "ninv s" and p: "npc s t = NDeliver (c # cs) e" and pc: "npc s c = NBlocked"
  shows "ninv (s\<lparr>npc := (npc s)(c := NWoken e, t := NDeliver cs e)\<rparr>)"
proof -
  let ?s = "s\<lparr>npc := (npc s)(c := NWoken e, t := NDeliver cs e)\<rparr>"
  note il = ninvD(1)[OF i] and ip = ninvD(2)[OF i] and ia = ninvD(3)[OF i]
    and id = ninvD(4)[OF i] and ir = ninvD(5)[OF i] and io = ninvD(6)[OF i]
  have ct: "c \<noteq> t" using p pc by auto
  have cw: "c \<notin> set (waitPending (nsig s))" using deliver_batch[OF id p, of c] by simp
  have tw: "t \<notin> set (waitPending (nsig s))" using pending_pc[OF ip, of t] p by auto
  from deliver_round[OF id p] obtain pre where R: "(t, pre @ c # cs, e) \<in> set (rounds s)" by blast
  have cr: "in_round s c" unfolding in_round_def using R by force
  have cs: "served s c e" unfolding served_def using R by force
  have dR: "distinct (t # pre @ c # cs)"
    using round_members_distinct[OF rounds_distinct[OF io] R] by simp
  have l: "\<And>x. leader ?s x = leader s x"
  proof -
    fix x show "leader ?s x = leader s x"
    proof (cases "x = c")
      case True
      have "\<not> leader s c" using pc by (simp add: leader_def)
      moreover have "\<not> leader ?s c" using cw ct by (auto simp: leader_def)
      ultimately show ?thesis using True by simp
    next
      case False
      then show ?thesis using p by (auto simp: leader_def)
    qed
  qed
  have r: "\<And>x. in_round ?s x = in_round s x" "\<And>x v. served ?s x v = served s x v"
    by (simp_all add: in_round_def served_def)
  have 1: "inv_leader ?s" using il by (simp add: inv_leader_def l)
  have 2: "inv_pending ?s"
    unfolding inv_pending_def
  proof (rule conjI, goal_cases)
    case 1
    show ?case using pending_distinct[OF ip] by simp
  next
    case 2
    show ?case
    proof
      fix x assume "x \<in> set (waitPending (nsig ?s))"
      then have x: "x \<in> set (waitPending (nsig s))" by simp
      then have "x \<noteq> c" "x \<noteq> t" using cw tw by auto
      with pending_pc[OF ip x] pending_fresh[OF ip x]
      show "(npc ?s x = NBlocked \<or> ((\<exists>e. npc ?s x = NWoken e) \<and> x = hd (waitPending (nsig ?s)))) \<and>
          \<not> in_round ?s x" by (simp add: r)
    qed
  qed
  have 3: "inv_active ?s"
    unfolding inv_active_def
  proof (intro allI impI)
    fix u b assume "npc ?s u = NActive b"
    then have u: "npc s u = NActive b" by (simp split: if_splits)
    have m: "\<forall>x \<in> set b. x \<noteq> t \<and> x \<noteq> c" using active_batch[OF ia u] p cr by auto
    show "distinct (u # b) \<and> \<not> in_round ?s u \<and>
       (\<forall>c \<in> set b. npc ?s c = NBlocked \<and> \<not> in_round ?s c \<and> c \<notin> set (waitPending (nsig ?s)))"
      using active_self[OF ia u] active_batch[OF ia u] m by (simp add: r)
  qed
  have 4: "inv_deliver ?s"
    unfolding inv_deliver_def
  proof (intro allI impI)
    fix h ds v assume a: "npc ?s h = NDeliver ds v"
    show "(\<exists>pre. (h, pre @ ds, v) \<in> set (rounds ?s)) \<and>
       (\<forall>c \<in> set ds. npc ?s c = NBlocked \<and> c \<notin> set (waitPending (nsig ?s)))"
    proof (cases "h = t")
      case True
      with a have e: "ds = cs" "v = e" by simp_all
      have "(t, (pre @ [c]) @ cs, e) \<in> set (rounds s)" using R by simp
      then have ex: "\<exists>pre. (t, pre @ cs, e) \<in> set (rounds s)" by blast
      have m: "\<forall>x \<in> set cs. x \<noteq> c \<and> x \<noteq> t" using dR by auto
      show ?thesis using True e ex m deliver_batch[OF id p] by simp
    next
      case False
      with a ct have u: "npc s h = NDeliver ds v" by (simp split: if_splits)
      from deliver_round[OF id u] obtain pre' where R': "(h, pre' @ ds, v) \<in> set (rounds s)"
        by blast
      have "(h, pre' @ ds, v) \<noteq> (t, pre @ c # cs, e)" using False by simp
      from members_disjoint[OF rounds_distinct[OF io] R' R this]
      have "c \<notin> set ds" by auto
      moreover have "\<forall>x \<in> set ds. x \<noteq> t" using deliver_batch[OF id u] p by auto
      ultimately show ?thesis using R' deliver_batch[OF id u] by auto
    qed
  qed
  have 5: "inv_result ?s"
    unfolding inv_result_def
  proof (rule conjI, goal_cases)
    case 1
    show ?case
    proof (intro allI impI)
      fix u v assume a: "npc ?s u = NWoken v"
      show "leader ?s u \<or> served ?s u v"
      proof (cases "u = c")
        case True
        with a ct have "v = e" by simp
        with cs True show ?thesis by (simp add: r)
      next
        case False
        with a have "npc s u = NWoken v" by (simp split: if_splits)
        from woken_result[OF ir this] show ?thesis by (simp add: l r)
      qed
    qed
  next
    case 2
    show ?case
    proof (intro allI impI)
      fix u v assume "npc ?s u = NReturned v"
      then have "npc s u = NReturned v" by (simp split: if_splits)
      from returned_result[OF ir this] show "served ?s u v" by (simp add: r)
    qed
  qed
  have 6: "inv_rounds ?s"
    unfolding inv_rounds_def
  proof (rule conjI, goal_cases)
    case 1
    show ?case using rounds_distinct[OF io] by simp
  next
    case 2
    show ?case
    proof (intro allI impI)
      fix u assume "npc ?s u = NInit"
      then have "npc s u = NInit" by (simp split: if_splits)
      from init_fresh[OF io this]
      show "u \<notin> set (waitPending (nsig ?s)) \<and> \<not> in_round ?s u" by (simp add: r)
    qed
  qed
  show ?thesis using 1 2 3 4 5 6 by (rule ninvI)
qed

lemma in_round_add:
  "in_round (s\<lparr>npc := f, rounds := rounds s @ [(t, b, e)]\<rparr>) x = (in_round s x \<or> x = t \<or> x \<in> set b)"
  by (auto simp: in_round_def)

lemma in_round_add2:
  "in_round (s\<lparr>nsig := g, npc := f, rounds := rounds s @ [(t, b, e)]\<rparr>) x =
     (in_round s x \<or> x = t \<or> x \<in> set b)"
  by (auto simp: in_round_def)

lemma served_mono:
  "served s x v \<Longrightarrow> served (s\<lparr>npc := f, rounds := rounds s @ [q]\<rparr>) x v"
  "served s x v \<Longrightarrow> served (s\<lparr>nsig := g, npc := f, rounds := rounds s @ [q]\<rparr>) x v"
  by (auto simp: served_def)

lemma rounds_add_distinct:
  assumes "distinct (concat (map members rs))" and "distinct (t # b)"
    and "\<forall>x \<in> set (t # b). \<not> (\<exists>r \<in> set rs. x \<in> set (members r))"
  shows "distinct (concat (map members (rs @ [(t, b, e)])))"
  using assms by auto

text \<open>Complete, nobody pending\<close>

lemma Complete_idle:
  assumes i: "ninv s" and p: "npc s t = NActive b" and wp: "waitPending (nsig s) = []"
  shows "ninv (s\<lparr>nsig := (nsig s)\<lparr>state := signalerStateIdle\<rparr>,
                 npc := (npc s)(t := NDeliver b e), rounds := rounds s @ [(t, b, e)]\<rparr>)"
proof -
  let ?s = "s\<lparr>nsig := (nsig s)\<lparr>state := signalerStateIdle\<rparr>,
                 npc := (npc s)(t := NDeliver b e), rounds := rounds s @ [(t, b, e)]\<rparr>"
  note il = ninvD(1)[OF i] and ip = ninvD(2)[OF i] and ia = ninvD(3)[OF i]
    and id = ninvD(4)[OF i] and ir = ninvD(5)[OF i] and io = ninvD(6)[OF i]
  have lt: "leader s t" using p by (rule leader_Active)
  have only: "\<And>x. leader s x \<Longrightarrow> x = t" using leader_unique[OF il _ lt] by blast
  have noact: "\<And>u b'. u \<noteq> t \<Longrightarrow> npc s u \<noteq> NActive b'"
    using only leader_Active by blast
  have l: "\<And>x. \<not> leader ?s x"
  proof -
    fix x show "\<not> leader ?s x"
    proof
      assume "leader ?s x"
      with wp obtain b' where "npc ?s x = NActive b'" by (auto simp: leader_def)
      then have "x \<noteq> t" "npc s x = NActive b'" by (auto split: if_splits)
      with noact show False by blast
    qed
  qed
  note r = in_round_add2
  have bm: "\<forall>c \<in> set b. npc s c = NBlocked \<and> \<not> in_round s c \<and> c \<noteq> t"
    using active_batch[OF ia p] p by auto
  have 1: "inv_leader ?s" unfolding inv_leader_def using l wp by simp
  have 2: "inv_pending ?s" unfolding inv_pending_def using wp by simp
  have 3: "inv_active ?s"
    unfolding inv_active_def
  proof (intro allI impI)
    fix u b' assume "npc ?s u = NActive b'"
    then have "u \<noteq> t" "npc s u = NActive b'" by (auto split: if_splits)
    with noact have False by blast
    then show "distinct (u # b') \<and> \<not> in_round ?s u \<and>
       (\<forall>c \<in> set b'. npc ?s c = NBlocked \<and> \<not> in_round ?s c \<and> c \<notin> set (waitPending (nsig ?s)))"
      by blast
  qed
  have 4: "inv_deliver ?s"
    unfolding inv_deliver_def
  proof (intro allI impI)
    fix h ds v assume a: "npc ?s h = NDeliver ds v"
    show "(\<exists>pre. (h, pre @ ds, v) \<in> set (rounds ?s)) \<and>
       (\<forall>c \<in> set ds. npc ?s c = NBlocked \<and> c \<notin> set (waitPending (nsig ?s)))"
    proof (cases "h = t")
      case True
      with a have e: "ds = b" "v = e" by simp_all
      have "(t, [] @ b, e) \<in> set (rounds ?s)" by simp
      then have "\<exists>pre. (t, pre @ b, e) \<in> set (rounds ?s)" by blast
      with True e bm wp show ?thesis by simp
    next
      case False
      with a have u: "npc s h = NDeliver ds v" by simp
      from deliver_round[OF id u] obtain pre where "(h, pre @ ds, v) \<in> set (rounds s)" by blast
      then have "\<exists>pre. (h, pre @ ds, v) \<in> set (rounds ?s)" by auto
      moreover have "\<forall>x \<in> set ds. x \<noteq> t" using deliver_batch[OF id u] p by auto
      ultimately show ?thesis using deliver_batch[OF id u] by simp
    qed
  qed
  have 5: "inv_result ?s"
    unfolding inv_result_def
  proof (rule conjI, goal_cases)
    case 1
    show ?case
    proof (intro allI impI)
      fix u v assume "npc ?s u = NWoken v"
      then have u: "npc s u = NWoken v" "u \<noteq> t" by (auto split: if_splits)
      with woken_result[OF ir u(1)] only have "served s u v" by blast
      then show "leader ?s u \<or> served ?s u v" using served_mono(2) by blast
    qed
  next
    case 2
    show ?case
    proof (intro allI impI)
      fix u v assume "npc ?s u = NReturned v"
      then have "npc s u = NReturned v" by (simp split: if_splits)
      from returned_result[OF ir this] show "served ?s u v" using served_mono(2) by blast
    qed
  qed
  have 6: "inv_rounds ?s"
    unfolding inv_rounds_def
  proof (rule conjI, goal_cases)
    case 1
    have "distinct (concat (map members (rounds s @ [(t, b, e)])))"
    proof (rule rounds_add_distinct)
      show "distinct (concat (map members (rounds s)))" by (rule rounds_distinct[OF io])
      show "distinct (t # b)" using active_self[OF ia p] by simp
      show "\<forall>x \<in> set (t # b). \<not> (\<exists>r \<in> set (rounds s). x \<in> set (members r))"
        using active_self[OF ia p] bm unfolding in_round_def by auto
    qed
    then show ?case by simp
  next
    case 2
    show ?case
    proof (intro allI impI)
      fix u assume a: "npc ?s u = NInit"
      then have ut: "u \<noteq> t" by auto
      with a have u: "npc s u = NInit" by simp
      have "u \<notin> set b" using bm u by auto
      with init_fresh[OF io u] ut
      show "u \<notin> set (waitPending (nsig ?s)) \<and> \<not> in_round ?s u" by (simp add: r)
    qed
  qed
  show ?thesis using 1 2 3 4 5 6 by (rule ninvI)
qed

text \<open>Complete, promoting the head of the pending callers\<close>

lemma Complete_promote:
  assumes i: "ninv s" and p: "npc s t = NActive b" and wp: "waitPending (nsig s) \<noteq> []"
    and pc: "npc s (hd (waitPending (nsig s))) = NBlocked"
  shows "ninv (s\<lparr>npc := (npc s)(hd (waitPending (nsig s)) := NWoken None, t := NDeliver b e),
                 rounds := rounds s @ [(t, b, e)]\<rparr>)"
proof -
  let ?c = "hd (waitPending (nsig s))"
  let ?s = "s\<lparr>npc := (npc s)(?c := NWoken None, t := NDeliver b e),
                 rounds := rounds s @ [(t, b, e)]\<rparr>"
  note il = ninvD(1)[OF i] and ip = ninvD(2)[OF i] and ia = ninvD(3)[OF i]
    and id = ninvD(4)[OF i] and ir = ninvD(5)[OF i] and io = ninvD(6)[OF i]
  have lt: "leader s t" using p by (rule leader_Active)
  have only: "\<And>x. leader s x \<Longrightarrow> x = t" using leader_unique[OF il _ lt] by blast
  have noact: "\<And>u b'. u \<noteq> t \<Longrightarrow> npc s u \<noteq> NActive b'"
    using only leader_Active by blast
  have ct: "?c \<noteq> t" using p pc by auto
  have cin: "?c \<in> set (waitPending (nsig s))" using wp by simp
  have tw: "t \<notin> set (waitPending (nsig s))" using pending_pc[OF ip, of t] p by auto
  have bm: "\<forall>x \<in> set b. npc s x = NBlocked \<and> \<not> in_round s x \<and> x \<noteq> t \<and>
      x \<notin> set (waitPending (nsig s))"
    using active_batch[OF ia p] p by auto
  have cb: "?c \<notin> set b" using bm cin by blast
  have l: "\<And>x. leader ?s x = (x = ?c)"
  proof -
    fix x show "leader ?s x = (x = ?c)"
    proof (cases "x = ?c")
      case True
      then show ?thesis using wp ct by (simp add: leader_def)
    next
      case False
      have "\<not> leader ?s x"
      proof
        assume "leader ?s x"
        with False obtain b' where "npc ?s x = NActive b'" by (auto simp: leader_def)
        then have "x \<noteq> t" "npc s x = NActive b'" by (auto split: if_splits)
        with noact show False by blast
      qed
      with False show ?thesis by simp
    qed
  qed
  note r = in_round_add
  have st: "state (nsig s) \<noteq> signalerStateIdle" using idle_no_leader[OF il _, of t] lt by blast
  have 1: "inv_leader ?s" unfolding inv_leader_def using st by (simp add: l)
  have 2: "inv_pending ?s"
    unfolding inv_pending_def
  proof (rule conjI, goal_cases)
    case 1
    show ?case using pending_distinct[OF ip] by simp
  next
    case 2
    show ?case
    proof
      fix x assume "x \<in> set (waitPending (nsig ?s))"
      then have x: "x \<in> set (waitPending (nsig s))" by simp
      then have xt: "x \<noteq> t" "x \<notin> set b" using tw bm by auto
      show "(npc ?s x = NBlocked \<or> ((\<exists>e. npc ?s x = NWoken e) \<and> x = hd (waitPending (nsig ?s)))) \<and>
          \<not> in_round ?s x"
      proof (cases "x = ?c")
        case True
        with xt pending_fresh[OF ip x] ct show ?thesis by (simp add: r)
      next
        case False
        with xt pending_pc[OF ip x] pending_fresh[OF ip x] show ?thesis by (auto simp: r)
      qed
    qed
  qed
  have 3: "inv_active ?s"
    unfolding inv_active_def
  proof (intro allI impI)
    fix u b' assume "npc ?s u = NActive b'"
    then have "u \<noteq> t" "npc s u = NActive b'" by (auto split: if_splits)
    with noact have False by blast
    then show "distinct (u # b') \<and> \<not> in_round ?s u \<and>
       (\<forall>c \<in> set b'. npc ?s c = NBlocked \<and> \<not> in_round ?s c \<and> c \<notin> set (waitPending (nsig ?s)))"
      by blast
  qed
  have 4: "inv_deliver ?s"
    unfolding inv_deliver_def
  proof (intro allI impI)
    fix h ds v assume a: "npc ?s h = NDeliver ds v"
    show "(\<exists>pre. (h, pre @ ds, v) \<in> set (rounds ?s)) \<and>
       (\<forall>c \<in> set ds. npc ?s c = NBlocked \<and> c \<notin> set (waitPending (nsig ?s)))"
    proof (cases "h = t")
      case True
      with a have e: "ds = b" "v = e" by simp_all
      have "(t, [] @ b, e) \<in> set (rounds ?s)" by simp
      then have "\<exists>pre. (t, pre @ b, e) \<in> set (rounds ?s)" by blast
      with True e bm cb show ?thesis by auto
    next
      case False
      with a have u: "npc s h = NDeliver ds v" by (simp split: if_splits)
      from deliver_round[OF id u] obtain pre where "(h, pre @ ds, v) \<in> set (rounds s)" by blast
      then have "\<exists>pre. (h, pre @ ds, v) \<in> set (rounds ?s)" by auto
      moreover have "\<forall>x \<in> set ds. x \<noteq> t \<and> x \<noteq> ?c" using deliver_batch[OF id u] p cin by auto
      ultimately show ?thesis using deliver_batch[OF id u] by simp
    qed
  qed
  have 5: "inv_result ?s"
    unfolding inv_result_def
  proof (rule conjI, goal_cases)
    case 1
    show ?case
    proof (intro allI impI)
      fix u v assume a: "npc ?s u = NWoken v"
      show "leader ?s u \<or> served ?s u v"
      proof (cases "u = ?c")
        case True
        then show ?thesis by (simp add: l)
      next
        case False
        with a have u: "npc s u = NWoken v" "u \<noteq> t" by (auto split: if_splits)
        with woken_result[OF ir u(1)] only have "served s u v" by blast
        then show ?thesis using served_mono(1) by blast
      qed
    qed
  next
    case 2
    show ?case
    proof (intro allI impI)
      fix u v assume "npc ?s u = NReturned v"
      then have "npc s u = NReturned v" by (simp split: if_splits)
      from returned_result[OF ir this] show "served ?s u v" using served_mono(1) by blast
    qed
  qed
  have 6: "inv_rounds ?s"
    unfolding inv_rounds_def
  proof (rule conjI, goal_cases)
    case 1
    have "distinct (concat (map members (rounds s @ [(t, b, e)])))"
    proof (rule rounds_add_distinct)
      show "distinct (concat (map members (rounds s)))" by (rule rounds_distinct[OF io])
      show "distinct (t # b)" using active_self[OF ia p] by simp
      show "\<forall>x \<in> set (t # b). \<not> (\<exists>r \<in> set (rounds s). x \<in> set (members r))"
        using active_self[OF ia p] bm unfolding in_round_def by auto
    qed
    then show ?case by simp
  next
    case 2
    show ?case
    proof (intro allI impI)
      fix u assume a: "npc ?s u = NInit"
      then have ut: "u \<noteq> t" "u \<noteq> ?c" by (auto split: if_splits)
      with a have u: "npc s u = NInit" by simp
      have "u \<notin> set b" using bm u by auto
      with init_fresh[OF io u] ut
      show "u \<notin> set (waitPending (nsig ?s)) \<and> \<not> in_round ?s u" by (simp add: r)
    qed
  qed
  show ?thesis using 1 2 3 4 5 6 by (rule ninvI)
qed

text \<open>The steps, written out\<close>

lemma nstep_Call:
  "nstep (Call t) s =
     (if npc s t = NInit then
        (if state (nsig s) \<noteq> signalerStateIdle
         then s\<lparr>nsig := (nsig s)\<lparr>waitPending := waitPending (nsig s) @ [t]\<rparr>,
                npc := (npc s)(t := NBlocked)\<rparr>
         else s\<lparr>nsig := (nsig s)\<lparr>state := signalerStateOffering\<rparr>,
                npc := (npc s)(t := NActive [])\<rparr>)
      else s)"
  by (cases "npc s t") (simp_all add: nstep_def Negotiate_lock1_def)

lemma nstep_Complete:
  "nstep (Complete t e) s =
     (case npc s t of
        NActive b \<Rightarrow>
          (if waitPending (nsig s) = []
           then s\<lparr>nsig := (nsig s)\<lparr>state := signalerStateIdle\<rparr>,
                  npc := (npc s)(t := NDeliver b e), rounds := rounds s @ [(t, b, e)]\<rparr>
           else if npc s (hd (waitPending (nsig s))) = NBlocked
           then s\<lparr>npc := (npc s)(hd (waitPending (nsig s)) := NWoken None, t := NDeliver b e),
                  rounds := rounds s @ [(t, b, e)]\<rparr>
           else s)
      | _ \<Rightarrow> s)"
  by (cases "npc s t") (simp_all add: nstep_def finish_lock_def)

lemma nstep_Pass:
  "nstep (Pass t) s =
     (case npc s t of
        NDeliver [] e \<Rightarrow> s\<lparr>npc := (npc s)(t := NReturned e)\<rparr>
      | NDeliver (c # cs) e \<Rightarrow>
          if npc s c = NBlocked then s\<lparr>npc := (npc s)(c := NWoken e, t := NDeliver cs e)\<rparr> else s
      | _ \<Rightarrow> s)"
  by (simp add: nstep_def)

lemma nstep_Resume:
  "nstep (Resume t) s =
     (case npc s t of
        NWoken e \<Rightarrow>
          (if waitPending (nsig s) = [] \<or> hd (waitPending (nsig s)) \<noteq> t
           then s\<lparr>npc := (npc s)(t := NReturned e)\<rparr>
           else s\<lparr>nsig := (nsig s)\<lparr>waitPending := [], state := signalerStateOffering\<rparr>,
                  npc := (npc s)(t := NActive (tl (waitPending (nsig s))))\<rparr>)
      | _ \<Rightarrow> s)"
  by (cases "npc s t") (simp_all add: nstep_def Negotiate_lock2_def)

lemma nstep_ninv: "ninv s \<Longrightarrow> ninv (nstep ev s)"
proof (cases ev)
  case (Call t)
  assume i: "ninv s"
  show ?thesis unfolding Call nstep_Call
    using Call_idle[OF i, of t] Call_queue[OF i, of t] i by simp
next
  case (Complete t e)
  assume i: "ninv s"
  show ?thesis
  proof (cases "npc s t")
    case (NActive b)
    show ?thesis unfolding Complete nstep_Complete
      using Complete_idle[OF i NActive, of e] Complete_promote[OF i NActive, of e] i NActive
      by simp
  qed (use i in \<open>simp_all add: Complete nstep_Complete\<close>)
next
  case (Pass t)
  assume i: "ninv s"
  show ?thesis
  proof (cases "npc s t")
    case (NDeliver ds e)
    show ?thesis
    proof (cases ds)
      case Nil
      with Pass_return[OF i, of t e] NDeliver show ?thesis by (simp add: Pass nstep_Pass)
    next
      case (Cons c cs)
      with Pass_send[OF i, of t c cs e] NDeliver i show ?thesis by (simp add: Pass nstep_Pass)
    qed
  qed (use i in \<open>simp_all add: Pass nstep_Pass\<close>)
next
  case (Resume t)
  assume i: "ninv s"
  show ?thesis
  proof (cases "npc s t")
    case (NWoken e)
    show ?thesis unfolding Resume nstep_Resume
      using Resume_leave[OF i NWoken] Resume_lead[OF i NWoken] NWoken
      by (cases "waitPending (nsig s) = [] \<or> hd (waitPending (nsig s)) \<noteq> t") auto
  qed (use i in \<open>simp_all add: Resume nstep_Resume\<close>)
qed

lemma nrun_ninv: "ninv s \<Longrightarrow> ninv (nrun evs s)"
  unfolding nrun_def by (induction evs arbitrary: s) (simp_all add: nstep_ninv)

lemma reachable_ninv: "ninv (nrun evs (nstate_start (SignalerMake p)))"
  by (rule nrun_ninv[OF ninv_start])

lemma first_alone_start: "first_alone (nstate_start x)"
  by (simp add: first_alone_def nstate_start_def)

lemma first_aloneD:
  "first_alone s \<Longrightarrow> rounds s = [] \<Longrightarrow>
     npc s t = NInit \<or> npc s t = NBlocked \<or> npc s t = NActive []"
  by (simp add: first_alone_def)

lemma nstep_first_alone: "first_alone s \<Longrightarrow> first_alone (nstep ev s)"
proof (cases ev)
  case (Call t)
  assume "first_alone s"
  then show ?thesis unfolding Call nstep_Call by (auto simp: first_alone_def)
next
  case (Complete t e)
  assume a: "first_alone s"
  show ?thesis
  proof (cases "npc s t")
    case (NActive b)
    have h: "rounds s = [] \<Longrightarrow> b = []" using first_aloneD[OF a, of t] NActive by auto
    have k: "rounds s \<noteq> [] \<Longrightarrow> fst (snd (hd (rounds s))) = []" using a
      by (simp add: first_alone_def)
    show ?thesis unfolding Complete nstep_Complete using NActive h k a
      by (cases "rounds s = []") (auto simp: first_alone_def)
  qed (use a in \<open>simp_all add: Complete nstep_Complete\<close>)
next
  case (Pass t)
  assume a: "first_alone s"
  show ?thesis
  proof (cases "npc s t")
    case (NDeliver ds e)
    then have "rounds s \<noteq> []" using first_aloneD[OF a, of t] by auto
    with a NDeliver show ?thesis unfolding Pass nstep_Pass
      by (cases ds) (auto simp: first_alone_def)
  qed (use a in \<open>simp_all add: Pass nstep_Pass\<close>)
next
  case (Resume t)
  assume a: "first_alone s"
  show ?thesis
  proof (cases "npc s t")
    case (NWoken e)
    then have "rounds s \<noteq> []" using first_aloneD[OF a, of t] by auto
    with a NWoken show ?thesis unfolding Resume nstep_Resume
      by (auto simp: first_alone_def)
  qed (use a in \<open>simp_all add: Resume nstep_Resume\<close>)
qed

lemma nrun_first_alone: "first_alone s \<Longrightarrow> first_alone (nrun evs s)"
  unfolding nrun_def by (induction evs arbitrary: s) (simp_all add: nstep_first_alone)

lemma served_unique:
  assumes io: "inv_rounds s" and sv: "served s t e" and r: "r \<in> set (rounds s)"
    and m: "t \<in> set (members r)"
  shows "e = result_of r"
proof -
  from sv obtain q where q: "q \<in> set (rounds s)" "result_of q = e" "t \<in> set (members q)"
    unfolding served_def by blast
  have "q = r"
  proof (rule ccontr)
    assume "q \<noteq> r"
    from members_disjoint[OF rounds_distinct[OF io] q(1) r this] q(3) m show False by blast
  qed
  with q show ?thesis by simp
qed

lemmas nstep_defs = nrun_def nstep_Call nstep_Complete nstep_Pass nstep_Resume nstate_start_def
  SignalerMake_def

lemma callers_two_run:
  "npc (nrun callers_two (nstate_start (SignalerMake False))) 0 = NReturned None \<and>
   npc (nrun callers_two (nstate_start (SignalerMake False))) 1 = NReturned (Some (Simple ''failed'')) \<and>
   rounds (nrun callers_two (nstate_start (SignalerMake False))) =
     [(0, [], None), (1, [], Some (Simple ''failed''))]"
  by (simp add: callers_two_def nstep_defs)

lemma callers_three_run:
  "npc (nrun callers_three (nstate_start (SignalerMake False))) 0 = NReturned None \<and>
   npc (nrun callers_three (nstate_start (SignalerMake False))) 1 = NReturned (Some (Simple ''failed'')) \<and>
   npc (nrun callers_three (nstate_start (SignalerMake False))) 2 = NReturned (Some (Simple ''failed'')) \<and>
   rounds (nrun callers_three (nstate_start (SignalerMake False))) =
     [(0, [], None), (1, [2], Some (Simple ''failed''))]"
  by (simp add: callers_three_def nstep_defs)

lemma callers_mid_run:
  "npc (nrun callers_mid (nstate_start (SignalerMake False))) 1 = NActive [2] \<and>
   waitPending (nsig (nrun callers_mid (nstate_start (SignalerMake False)))) = [3]"
  by (simp add: callers_mid_def nstep_defs)

lemma demo_pending: "\<not> stuck world_pending \<and>
   \<not> stuck (Negotiate_deferred False [1, 2] None world_pending) \<and>
   waitPending (sg world_pending) = [3, 4] \<and> sent world_pending = []"
  by (simp add: world_pending_def world_defs)

lemma demo_batch: "\<not> stuck world_batch \<and>
   \<not> stuck (Negotiate_deferred False [1, 2] None world_batch) \<and>
   waitPending (sg world_batch) = [] \<and> sent world_batch = []"
  by (simp add: world_batch_def world_defs)


section \<open>The claims\<close>

text \<open>
  C1, as amended. When a send round is completed (\<open>candidateProcessSend\<close> returns
  \<open>done = true\<close>), the candidates forwarded to the remote peer through
  \<open>SignalerSet.CandidateAdd\<close> are, in the same order, the candidates that were buffered or
  given to \<open>candidateHandle\<close>: the batches put end to end, followed by what is still
  buffered, are exactly the buffer at the start followed by the gathered candidates. No
  batch is empty, the last batch and with it the whole forwarded sequence ends in the
  empty-string sentinel, and no earlier batch ends in it: the round ends at the first batch
  whose last element is the sentinel, and nothing is forwarded after that batch. If, among
  the candidates buffered and gathered until the round returns, the sentinel stands only in
  last place, then all of them are forwarded and no candidate is forwarded after the
  sentinel. The start state satisfies the invariant \<open>cand_inv\<close> of the accumulator.
\<close>

theorem candidateProcessSend_order:
  "candidateProcessSend fn evs x = Some r \<Longrightarrow> cdone r \<Longrightarrow> cand_inv x \<Longrightarrow>
     (\<exists>pre. evs = pre @ rest r \<and>
        concat (batches r) @ candidates (after r) = candidates x @ gathered pre) \<and>
     prefix (concat (batches r)) (candidates x @ gathered evs) \<and>
     batches r \<noteq> [] \<and> (\<forall>b \<in> set (batches r). b \<noteq> []) \<and>
     last (last (batches r)) = [] \<and>
     (\<forall>b \<in> set (butlast (batches r)). last b \<noteq> []) \<and>
     last (concat (batches r)) = [] \<and>
     (\<forall>pre. evs = pre @ rest r \<and> [] \<notin> set (butlast (candidates x @ gathered pre)) \<longrightarrow>
        [] \<notin> set (butlast (concat (batches r))) \<and>
        concat (batches r) = candidates x @ gathered pre \<and> candidates (after r) = [])"
proof -
  assume run: "candidateProcessSend fn evs x = Some r" and d: "cdone r"
    and inv: "cand_inv x"
  from run have run': "candidateProcess fn evs x = Some r"
    by (simp add: candidateProcessSend_def)
  from candidateProcess_account[OF run' inv] d obtain pre where
    pre: "evs = pre @ rest r"
    and acc: "concat (batches r) @ candidates (after r) = candidates x @ gathered pre"
    and ne: "\<forall>b \<in> set (batches r). b \<noteq> []"
    and sh: "shape (Returned True (cerr r)) (batches r)"
    by auto
  have "prefix (concat (batches r)) (candidates x @ gathered pre)"
    using acc by (metis prefixI)
  then have pf: "prefix (concat (batches r)) (candidates x @ gathered evs)"
    using pre by (metis append.assoc gathered_append prefix_prefix)
  have la: "last (concat (batches r)) = []" using sh ne by (rule shape_True_last)
  have "batches r \<noteq> []" using sh by simp
  with ne have cne: "concat (batches r) \<noteq> []" by (cases "batches r") auto
  have only: "\<forall>pre'. evs = pre' @ rest r \<and> [] \<notin> set (butlast (candidates x @ gathered pre')) \<longrightarrow>
        [] \<notin> set (butlast (concat (batches r))) \<and>
        concat (batches r) = candidates x @ gathered pre' \<and> candidates (after r) = []"
  proof (intro allI impI, elim conjE)
    fix pre' assume e: "evs = pre' @ rest r"
      and o: "[] \<notin> set (butlast (candidates x @ gathered pre'))"
    from e pre have "pre' = pre" by simp
    with o have o': "[] \<notin> set (butlast (candidates x @ gathered pre))" by simp
    from sentinel_last_only[OF acc cne la o'] acc \<open>pre' = pre\<close>
    show "[] \<notin> set (butlast (concat (batches r))) \<and>
        concat (batches r) = candidates x @ gathered pre' \<and> candidates (after r) = []"
      by simp
  qed
  from acc pf ne sh pre la have
    "(\<exists>pre. evs = pre @ rest r \<and>
        concat (batches r) @ candidates (after r) = candidates x @ gathered pre) \<and>
     prefix (concat (batches r)) (candidates x @ gathered evs) \<and>
     batches r \<noteq> [] \<and> (\<forall>b \<in> set (batches r). b \<noteq> []) \<and>
     last (last (batches r)) = [] \<and>
     (\<forall>b \<in> set (butlast (batches r)). last b \<noteq> []) \<and>
     last (concat (batches r)) = []" by auto
  with only show ?thesis by blast
qed

text \<open>
  C1, counterexample. The claim as it was stated fails where a candidate is gathered after
  the sentinel before the consumer takes the buffer: the loop tests only the last element
  of a batch, so the batch with the sentinel in the middle does not end the round, and the
  candidate behind the sentinel is forwarded.
\<close>

theorem candidateProcessSend_order_counterexample:
  "candidateProcessSend (\<lambda>h c. None) ev_after_sentinel (SignalerMake False) =
     Some \<lparr>cdone = True, cerr = None, after = SignalerMake False,
       batches = [[''a'', [], ''b''], [[]]], rest = []\<rparr> \<and>
   cand_inv (SignalerMake False) \<and>
   gathered ev_after_sentinel = [''a'', [], ''b'', []] \<and>
   concat [[''a'', [], ''b''], [[]]] ! 1 = [] \<and>
   concat [[''a'', [], ''b''], [[]]] ! 2 = ''b'' \<and>
   [] \<in> set (butlast (concat [[''a'', [], ''b''], [[]]]))"
  using after_sentinel_run
  by (simp add: cand_inv_def SignalerMake_def ev_after_sentinel_def CandidateOf_def Convert_def)

theorem candidateProcessSend_order_witness:
  "candidateProcessSend (\<lambda>h c. None) ev_demo (SignalerMake False) =
     Some \<lparr>cdone = True, cerr = None, after = SignalerMake False,
       batches = [[''a''], [''b''], [[]]], rest = [Gather None]\<rparr> \<and>
   cand_inv (SignalerMake False) \<and>
   ev_demo = take 6 ev_demo @ [Gather None] \<and>
   [] \<notin> set (butlast (candidates (SignalerMake False) @ gathered (take 6 ev_demo))) \<and>
   prefix (concat [[''a''], [''b''], [[]]]) (candidates (SignalerMake False) @ gathered ev_demo) \<and>
   last (concat [[''a''], [''b''], [[]]]) = [] \<and>
   [] \<notin> set (butlast (concat [[''a''], [''b''], [[]]])) \<and>
   concat [[''a''], [''b''], [[]]] = candidates (SignalerMake False) @ gathered (take 6 ev_demo)"
proof -
  have i: "cand_inv (SignalerMake False)" by (simp add: cand_inv_def SignalerMake_def)
  have e: "ev_demo = take 6 ev_demo @ [Gather None]" by (simp add: ev_demo_def)
  have o: "[] \<notin> set (butlast (candidates (SignalerMake False) @ gathered (take 6 ev_demo)))"
    by (simp add: ev_demo_def SignalerMake_def CandidateOf_def Convert_def)
  note t = candidateProcessSend_order[OF demo_run _ i]
  have a: "prefix (concat [[''a''], [''b''], [[]]]) (candidates (SignalerMake False) @ gathered ev_demo)"
    "last (concat [[''a''], [''b''], [[]]]) = []"
    using t by simp_all
  have b: "[] \<notin> set (butlast (concat [[''a''], [''b''], [[]]])) \<and>
     concat [[''a''], [''b''], [[]]] = candidates (SignalerMake False) @ gathered (take 6 ev_demo)"
  proof -
    from t have "\<forall>pre. ev_demo = pre @ [Gather None] \<and>
        [] \<notin> set (butlast (candidates (SignalerMake False) @ gathered pre)) \<longrightarrow>
        [] \<notin> set (butlast (concat [[''a''], [''b''], [[]]])) \<and>
        concat [[''a''], [''b''], [[]]] = candidates (SignalerMake False) @ gathered pre \<and>
        candidates (SignalerMake False) = []"
      by simp
    with e o show ?thesis by blast
  qed
  show ?thesis using demo_run i e o a b by blast
qed

text \<open>
  C2. When \<open>Answer\<close> is called on a Signaler whose state is offering and which holds priority,
  it returns the zero \<open>SessionDescription\<close> and an error whose message is exactly
  \<open>conflict\<close>, and it changes nothing. And when \<open>x.set.Answer\<close> returns an error to
  \<open>Negotiate\<close>, the negotiator takes the conceding branch if the message of that error is
  \<open>conflict\<close>, and otherwise returns that error through its deferred function; so it
  concedes only for that message and returns the error only for another one.
\<close>

theorem conflict_error:
  "(state (sg w) = signalerStateOffering \<and> priority (sg w) \<longrightarrow>
      Answer p offer w = (w, Some (SessionDescription_zero, Some (Simple conflictMessage))) \<and>
      Error render (Simple conflictMessage) = ''conflict'') \<and>
   (CreateOffer q = (o1, None) \<and>
    set_Answer q (SessionDescriptionOf (alter q o1)) = (a, Some e) \<longrightarrow>
      (Error render e = ''conflict'' \<longrightarrow>
         Negotiate_active render q ch sameBatch w =
           (Negotiate_concede ch w,
            if stuck (Negotiate_concede ch w) then Hangs
            else Conceded (sameBatch @ waitPending (sg w)))) \<and>
      (Error render e \<noteq> ''conflict'' \<longrightarrow>
         Negotiate_active render q ch sameBatch w =
           conclude (Some e) (Negotiate_deferred False sameBatch (Some e) w)) \<and>
      ((\<exists>b. snd (Negotiate_active render q ch sameBatch w) = Conceded b) \<longrightarrow>
         Error render e = ''conflict'') \<and>
      (\<forall>r. snd (Negotiate_active render q ch sameBatch w) = Concluded r \<longrightarrow>
         r = Some e \<and> Error render e \<noteq> ''conflict''))"
  by (auto simp: Answer_def conflictMessage_def Negotiate_active_def Let_def conclude_def
      split: if_splits)


theorem conflict_error_witness:
  "state (sg world_offering) = signalerStateOffering \<and> priority (sg world_offering) \<and>
   Answer peer_ok offer_demo world_offering =
     (world_offering, Some (SessionDescription_zero, Some (Simple ''conflict''))) \<and>
   Error render_demo (Simple ''conflict'') = ''conflict'' \<and>
   Negotiate_active render_demo peer_glare 9 [1, 2] world_batch =
     (Negotiate_concede 9 world_batch,
      if stuck (Negotiate_concede 9 world_batch) then Hangs
      else Conceded ([1, 2] @ waitPending (sg world_batch))) \<and>
   Error render_demo (Simple ''unreachable'') \<noteq> ''conflict'' \<and>
   Negotiate_active render_demo peer_down 9 [1, 2] world_batch =
     conclude (Some (Simple ''unreachable''))
       (Negotiate_deferred False [1, 2] (Some (Simple ''unreachable'')) world_batch)"
proof -
  have h: "state (sg world_offering) = signalerStateOffering \<and> priority (sg world_offering)"
    by (simp add: world_offering_def world_of_def SignalerMake_def)
  have e: "Error render_demo (Simple ''conflict'') = ''conflict''"
    "Error render_demo (Simple ''unreachable'') \<noteq> ''conflict''" by simp_all
  note t = conflict_error
  have a: "Answer peer_ok offer_demo world_offering =
     (world_offering, Some (SessionDescription_zero, Some (Simple ''conflict'')))"
    using h t[of world_offering peer_ok offer_demo render_demo peer_ok undefined undefined undefined 0 "[]"]
    unfolding conflictMessage_def by blast
  have b: "Negotiate_active render_demo peer_glare 9 [1, 2] world_batch =
     (Negotiate_concede 9 world_batch,
      if stuck (Negotiate_concede 9 world_batch) then Hangs
      else Conceded ([1, 2] @ waitPending (sg world_batch)))"
    using e(1) demo_glare_offer
      t[of world_batch peer_ok offer_demo render_demo peer_glare "\<lparr>Type = 1, SDP = ''offer''\<rparr>"
          SessionDescription_zero "Simple ''conflict''" 9 "[1, 2]"]
    by blast
  have c: "Negotiate_active render_demo peer_down 9 [1, 2] world_batch =
     conclude (Some (Simple ''unreachable''))
       (Negotiate_deferred False [1, 2] (Some (Simple ''unreachable'')) world_batch)"
    using e(2) demo_down_offer
      t[of world_batch peer_ok offer_demo render_demo peer_down "\<lparr>Type = 1, SDP = ''offer''\<rparr>"
          SessionDescription_zero "Simple ''unreachable''" 9 "[1, 2]"]
    by blast
  show ?thesis using h e a b c by blast
qed

text \<open>
  C3. When the active negotiator of a round returns the value \<open>e\<close>, its deferred function has
  sent over every channel of the round's batch exactly one value, and that value is \<open>e\<close>;
  the channels of the batch are distinct, and besides these sends the round sends at most
  the nil that promotes the head of the pending callers. The same holds for a negotiator
  that conceded and then received \<open>e\<close> on its \<open>waitSimple\<close> channel, and \<open>finishAnswer\<close>, when it
  returns, has sent its one error value once over each channel of \<open>waitSimple\<close>.
\<close>

theorem batch_receives_negotiator_result:
  "(Negotiate_active render p ch sameBatch w = (w', Concluded e) \<longrightarrow>
      distinct sameBatch \<and>
      (\<forall>c \<in> set sameBatch. received (sent w') c = received (sent w) c @ [e]) \<and>
      (\<exists>pre. sent w' = sent w @ pre @ map (\<lambda>c. (c, e)) sameBatch \<and>
         (pre = [] \<or> pre = [(hd (waitPending (sg w)), None)]))) \<and>
   (Negotiate_resume sameBatch e w = (w', Concluded e') \<longrightarrow>
      e' = e \<and> distinct sameBatch \<and>
      sent w' = sent w @ map (\<lambda>c. (c, e)) sameBatch \<and>
      (\<forall>c \<in> set sameBatch. received (sent w') c = received (sent w) c @ [e])) \<and>
   (\<not> stuck w \<and> \<not> stuck (finishAnswer e w) \<longrightarrow>
      distinct (waitSimple (sg w)) \<and>
      (\<forall>c \<in> set (waitSimple (sg w)).
         received (sent (finishAnswer e w)) c = received (sent w) c @ [e]))"
proof (intro conjI impI)
  assume a: "Negotiate_active render p ch sameBatch w = (w', Concluded e)"
  from Negotiate_active_Concluded[OF a] obtain w1 where
    w1: "w' = Negotiate_deferred False sameBatch e w1" "\<not> stuck w'" "\<not> stuck w1" "same_frame w1 w"
    by blast
  have eqs: "sent w1 = sent w" "waitPending (sg w1) = waitPending (sg w)"
    using w1(4) by (simp_all add: same_frame_def same_queues_def)
  have ret: "distinct sameBatch" "waitPending (sg w1) \<noteq> [] \<longrightarrow> hd (waitPending (sg w1)) \<notin> set sameBatch"
    using Negotiate_deferred_returns[OF w1(3), of sameBatch e] w1(1,2) by auto
  show "distinct sameBatch" by (rule ret)
  show pre: "\<exists>pre. sent w' = sent w @ pre @ map (\<lambda>c. (c, e)) sameBatch \<and>
         (pre = [] \<or> pre = [(hd (waitPending (sg w)), None)])"
  proof (cases "waitPending (sg w1) = []")
    case True
    with Negotiate_deferred_effect(1)[OF w1(3), of sameBatch e] w1(1,2) eqs
    show ?thesis by auto
  next
    case False
    with Negotiate_deferred_effect(2)[OF w1(3), of sameBatch e] w1(1,2) eqs
    show ?thesis by auto
  qed
  show "\<forall>c \<in> set sameBatch. received (sent w') c = received (sent w) c @ [e]"
  proof
    fix c assume c: "c \<in> set sameBatch"
    from pre obtain pre where p: "sent w' = sent w @ pre @ map (\<lambda>c. (c, e)) sameBatch"
      "pre = [] \<or> pre = [(hd (waitPending (sg w)), None)]" by blast
    have "received pre c = []"
    proof (cases "pre = []")
      case True then show ?thesis by (simp add: received_def)
    next
      case False
      with p(2) have pe: "pre = [(hd (waitPending (sg w)), None)]" by simp
      have "waitPending (sg w1) \<noteq> []"
      proof
        assume "waitPending (sg w1) = []"
        with Negotiate_deferred_effect(1)[OF w1(3), of sameBatch e] w1(1,2) eqs p(1) pe
        show False by simp
      qed
      with ret(2) eqs c have "c \<noteq> hd (waitPending (sg w))" by auto
      with pe show ?thesis by (simp add: received_other)
    qed
    with p(1) c ret(1) show "received (sent w') c = received (sent w) c @ [e]"
      by (simp add: received_append received_map)
  qed
next
  assume a: "Negotiate_resume sameBatch e w = (w', Concluded e')"
  from conclude_Concluded[OF a[unfolded Negotiate_resume_def]] have
    r: "w' = Negotiate_deferred True sameBatch e w" "e' = e" "\<not> stuck (Negotiate_deferred True sameBatch e w)"
    by auto
  then have ns: "\<not> stuck w" using Negotiate_deferred_stuck[of w True sameBatch e] by auto
  have d: "w' = send_all sameBatch e w" using r by (simp add: Negotiate_deferred_def)
  show "e' = e" by (rule r)
  show dist: "distinct sameBatch" using send_all_returns[OF ns, of sameBatch e] r d by auto
  show s: "sent w' = sent w @ map (\<lambda>c. (c, e)) sameBatch"
    using send_all_sent[of sameBatch e w] r d by auto
  show "\<forall>c \<in> set sameBatch. received (sent w') c = received (sent w) c @ [e]"
    using s dist by (simp add: received_append received_map)
next
  assume a: "\<not> stuck w \<and> \<not> stuck (finishAnswer e w)"
  let ?ws = "waitSimple (sg w)"
  let ?w1 = "send_all ?ws e w"
  have ns1: "\<not> stuck ?w1" using a finish_stuck_iff[of ?w1] by (auto simp: finishAnswer_def)
  show dist: "distinct ?ws" using send_all_returns[of w ?ws e] a ns1 by auto
  have s1: "sent ?w1 = sent w @ map (\<lambda>c. (c, e)) ?ws" using send_all_sent[OF ns1] .
  have r1: "ready ?w1 = (\<lambda>c. ready w c \<and> c \<notin> set ?ws)" using send_all_ready[OF ns1] .
  show "\<forall>c \<in> set ?ws. received (sent (finishAnswer e w)) c = received (sent w) c @ [e]"
  proof
    fix c assume c: "c \<in> set ?ws"
    have "sent (finishAnswer e w) = sent ?w1 \<or>
          (\<exists>h. ready ?w1 h \<and> sent (finishAnswer e w) = sent ?w1 @ [(h, None)])"
      using ns1 by (auto simp: finishAnswer_def finish_def finish_lock_def send_def)
    then show "received (sent (finishAnswer e w)) c = received (sent w) c @ [e]"
    proof
      assume "sent (finishAnswer e w) = sent ?w1"
      with s1 c dist show ?thesis by (simp add: received_append received_map)
    next
      assume "\<exists>h. ready ?w1 h \<and> sent (finishAnswer e w) = sent ?w1 @ [(h, None)]"
      then obtain h where h: "ready ?w1 h" "sent (finishAnswer e w) = sent ?w1 @ [(h, None)]"
        by blast
      with r1 c have "c \<noteq> h" by auto
      with h(2) s1 c dist show ?thesis
        by (simp add: received_append received_map received_other)
    qed
  qed
qed

theorem batch_receives_negotiator_result_witness:
  "Negotiate_active render_demo peer_down 9 [1, 2] world_batch =
     (fst (Negotiate_active render_demo peer_down 9 [1, 2] world_batch),
      Concluded (Some (Simple ''unreachable''))) \<and>
   received (sent (fst (Negotiate_active render_demo peer_down 9 [1, 2] world_batch))) 2 =
     [Some (Simple ''unreachable'')] \<and>
   Negotiate_resume [1, 2] None world_batch =
     (fst (Negotiate_resume [1, 2] None world_batch), Concluded None) \<and>
   received (sent (fst (Negotiate_resume [1, 2] None world_batch))) 1 = [None] \<and>
   \<not> stuck world_simple \<and> \<not> stuck (finishAnswer None world_simple) \<and>
   received (sent (finishAnswer None world_simple)) 9 = [None]"
proof -
  have s0: "sent world_batch = []" "sent world_simple = []" "waitSimple (sg world_simple) = [7, 9]"
    by (simp_all add: world_batch_def world_simple_def world_of_def)
  note t = batch_receives_negotiator_result
  from t[of render_demo peer_down 9 "[1, 2]" world_batch
      "fst (Negotiate_active render_demo peer_down 9 [1, 2] world_batch)"
      "Some (Simple ''unreachable'')"] demo_down
  have a: "received (sent (fst (Negotiate_active render_demo peer_down 9 [1, 2] world_batch))) 2 =
     [Some (Simple ''unreachable'')]"
    by (simp add: s0 received_def)
  from t[of _ _ _ "[1, 2]" world_batch "fst (Negotiate_resume [1, 2] None world_batch)" None None]
    demo_resume
  have b: "received (sent (fst (Negotiate_resume [1, 2] None world_batch))) 1 = [None]"
    by (simp add: s0 received_def)
  from t[of _ _ _ _ world_simple _ None] demo_finishAnswer
  have c: "received (sent (finishAnswer None world_simple)) 9 = [None]"
    by (simp add: s0 received_def)
  show ?thesis using a b c demo_down demo_resume demo_finishAnswer by simp
qed

text \<open>
  C4. When a round ends and its negotiator did not concede, the deferred function runs
  \<open>finish\<close> and then sends the result to the batch. If nobody is pending, the state becomes
  idle. If callers are pending, nil is sent to the first channel of \<open>waitPending\<close> and the
  Signaler is left as it is, so the state is never idle in between; the promoted caller
  then takes the whole of \<open>waitPending\<close> as its batch and sets the state to offering. The
  result of the round goes over the channels of the round's own batch only, and the
  promoted head is not one of them; in every state that callers of \<open>Negotiate\<close> can reach,
  the batch of a negotiator shares no channel with \<open>waitPending\<close>. A negotiator that
  conceded does not run \<open>finish\<close>.
\<close>

theorem round_completion:
  "(\<not> stuck w \<and> \<not> stuck (Negotiate_deferred False sameBatch e w) \<longrightarrow>
     (waitPending (sg w) = [] \<longrightarrow>
        sg (Negotiate_deferred False sameBatch e w) = (sg w)\<lparr>state := signalerStateIdle\<rparr> \<and>
        sent (Negotiate_deferred False sameBatch e w) = sent w @ map (\<lambda>c. (c, e)) sameBatch) \<and>
     (waitPending (sg w) \<noteq> [] \<longrightarrow>
        sg (Negotiate_deferred False sameBatch e w) = sg w \<and>
        sent (Negotiate_deferred False sameBatch e w) =
          sent w @ (hd (waitPending (sg w)), None) # map (\<lambda>c. (c, e)) sameBatch \<and>
        hd (waitPending (sg w)) \<notin> set sameBatch \<and>
        Negotiate_lock2 (hd (waitPending (sg w))) None (sg w) =
          ((sg w)\<lparr>waitPending := [], state := signalerStateOffering\<rparr>,
           Lead (tl (waitPending (sg w)))))) \<and>
   sg (Negotiate_deferred True sameBatch e w) = sg w \<and>
   (npc (nrun evs (nstate_start (SignalerMake p))) t = NActive b \<or>
    npc (nrun evs (nstate_start (SignalerMake p))) t = NDeliver b e' \<longrightarrow>
      set b \<inter> set (waitPending (nsig (nrun evs (nstate_start (SignalerMake p))))) = {})"
proof (intro conjI impI)
  assume a: "\<not> stuck w \<and> \<not> stuck (Negotiate_deferred False sameBatch e w)"
  { assume "waitPending (sg w) = []"
    with Negotiate_deferred_effect(1)[of w sameBatch e] a
    show "sg (Negotiate_deferred False sameBatch e w) = (sg w)\<lparr>state := signalerStateIdle\<rparr>"
      and "sent (Negotiate_deferred False sameBatch e w) = sent w @ map (\<lambda>c. (c, e)) sameBatch"
      by auto }
  { assume ne: "waitPending (sg w) \<noteq> []"
    with Negotiate_deferred_effect(2)[of w sameBatch e] a
    show "sg (Negotiate_deferred False sameBatch e w) = sg w"
      and "sent (Negotiate_deferred False sameBatch e w) =
          sent w @ (hd (waitPending (sg w)), None) # map (\<lambda>c. (c, e)) sameBatch"
      by auto
    show "hd (waitPending (sg w)) \<notin> set sameBatch"
      using Negotiate_deferred_returns[of w sameBatch e] a ne by auto
    show "Negotiate_lock2 (hd (waitPending (sg w))) None (sg w) =
          ((sg w)\<lparr>waitPending := [], state := signalerStateOffering\<rparr>,
           Lead (tl (waitPending (sg w))))"
      using ne by (simp add: Negotiate_lock2_def) }
next
  show "sg (Negotiate_deferred True sameBatch e w) = sg w"
    by (simp add: Negotiate_deferred_def send_all_sg)
next
  let ?s = "nrun evs (nstate_start (SignalerMake p))"
  assume a: "npc ?s t = NActive b \<or> npc ?s t = NDeliver b e'"
  have i: "ninv ?s" by (rule reachable_ninv)
  show "set b \<inter> set (waitPending (nsig ?s)) = {}"
    using a active_batch[OF ninvD(3)[OF i]] deliver_batch[OF ninvD(4)[OF i]] by blast
qed

theorem round_completion_witness:
  "\<not> stuck world_pending \<and> \<not> stuck (Negotiate_deferred False [1, 2] None world_pending) \<and>
   sg (Negotiate_deferred False [1, 2] None world_pending) = sg world_pending \<and>
   sent (Negotiate_deferred False [1, 2] None world_pending) = [(3, None), (1, None), (2, None)] \<and>
   \<not> stuck world_batch \<and> \<not> stuck (Negotiate_deferred False [1, 2] None world_batch) \<and>
   state (sg (Negotiate_deferred False [1, 2] None world_batch)) = signalerStateIdle \<and>
   sent (Negotiate_deferred False [1, 2] None world_batch) = [(1, None), (2, None)] \<and>
   npc (nrun callers_mid (nstate_start (SignalerMake False))) 1 = NActive [2] \<and>
   set [2] \<inter> set (waitPending (nsig (nrun callers_mid (nstate_start (SignalerMake False))))) = {}"
proof -
  note t = round_completion
  have a: "sg (Negotiate_deferred False [1, 2] None world_pending) = sg world_pending"
    "sent (Negotiate_deferred False [1, 2] None world_pending) = [(3, None), (1, None), (2, None)]"
    using t[of world_pending "[1, 2]" None callers_mid False 1 "[2]" None] demo_pending by auto
  have b: "state (sg (Negotiate_deferred False [1, 2] None world_batch)) = signalerStateIdle"
    "sent (Negotiate_deferred False [1, 2] None world_batch) = [(1, None), (2, None)]"
    using t[of world_batch "[1, 2]" None callers_mid False 1 "[2]" None] demo_batch by auto
  have c: "set [2] \<inter> set (waitPending (nsig (nrun callers_mid (nstate_start (SignalerMake False))))) = {}"
    using t[of world_batch "[1, 2]" None callers_mid False 1 "[2]" None] callers_mid_run by blast
  show ?thesis using a b c demo_pending demo_batch callers_mid_run by blast
qed

text \<open>
  C5. \<open>CandidateAdd\<close> with no candidate is meant to discard the local candidates, to deliver
  the error \<open>peer rejected answer\<close> to every channel of \<open>waitSimple\<close> and to return the
  Signaler to idle. \<open>finishAnswer\<close> does this when every channel of \<open>waitSimple\<close> has a
  receiver (\<open>finishAnswer_returns\<close>), but \<open>waitSimple\<close> is never emptied: the channel of a
  caller that conceded in an earlier round stays in it. The run below is the second of two
  rounds of glare. The first round ends well and leaves channel 7 in \<open>waitSimple\<close>, its
  receiver gone. In the second round the caller with channel 9 waits, \<open>CandidateAdd\<close> is
  called with no candidate and returns nil, its goroutine drains the candidates and then
  blocks in the send over channel 7: nothing is delivered over channel 9 and the state
  stays answering.
\<close>

theorem CandidateAdd_empty_stale_waitSimple:
  "snd (Negotiate_active render_demo peer_glare 7 [] glare1_waiting) = Conceded [] \<and>
   snd (CandidateAdd peer_ok [''r'', []] glare1_answered) = Some None \<and>
   snd (Negotiate_resume [] None glare1_finished) = Concluded None \<and>
   state (sg glare1_returned) = signalerStateIdle \<and>
   waitSimple (sg glare1_returned) = [7] \<and> \<not> ready glare1_returned 7 \<and>
   snd (Negotiate_active render_demo peer_glare 9 [] glare2_waiting) = Conceded [] \<and>
   state (sg glare2_answered) = signalerStateAnswering \<and>
   waitSimple (sg glare2_answered) = [7, 9] \<and>
   \<not> ready glare2_answered 7 \<and> ready glare2_answered 9 \<and>
   CandidateAdd peer_ok [] glare2_answered =
     (glare2_answered\<lparr>spawned := [RejectAnswer]\<rparr>, Some None) \<and>
   stuck glare2_rejected \<and>
   state (sg glare2_rejected) = signalerStateAnswering \<and>
   events glare2_rejected = [] \<and>
   sent glare2_rejected = [(7, None)] \<and>
   received (sent glare2_rejected) 9 = [] \<and> ready glare2_rejected 9"
proof -
  have a: "state (sg glare1_returned) = signalerStateIdle"
    "waitSimple (sg glare1_returned) = [7]" "\<not> ready glare1_returned 7"
    by (simp_all add: glare1_returned_eq[THEN conjunct1] glare1_finished_eq[THEN conjunct1]
        SignalerMake_def)
  have b: "state (sg glare2_answered) = signalerStateAnswering"
    "waitSimple (sg glare2_answered) = [7, 9]"
    "\<not> ready glare2_answered 7" "ready glare2_answered 9"
    "spawned glare2_answered = []"
    by (simp_all add: glare2_answered_eq[THEN conjunct1] SignalerMake_def)
  have c: "CandidateAdd peer_ok [] glare2_answered =
     (glare2_answered\<lparr>spawned := [RejectAnswer]\<rparr>, Some None)"
    using b(5) by (simp add: CandidateAdd_def)
  have d: "stuck glare2_rejected" "state (sg glare2_rejected) = signalerStateAnswering"
    "events glare2_rejected = []" "sent glare2_rejected = [(7, None)]"
    "received (sent glare2_rejected) 9 = []" "ready glare2_rejected 9"
    by (simp_all add: glare2_rejected_eq glare2_answered_eq[THEN conjunct1] SignalerMake_def
        received_def)
  show ?thesis
    using a b(1-4) c d glare1_conceded_eq glare1_finished_eq glare1_returned_eq glare2_conceded_eq
    by blast
qed

text \<open>
  C6, as amended. When \<open>Negotiate\<close> returns an error from the candidate exchange, it has run
  \<open>candidateProcessDiscard\<close> before returning if the sentinel had not yet been taken from the
  accumulator: after a failed \<open>SetRemoteDescription\<close> (and the empty call of the remote
  \<open>CandidateAdd\<close>), and after a send that failed with \<open>done = false\<close>. When the send failed on
  the batch that ends in the sentinel (\<open>done = true\<close>), no discard is run. In each case the
  accumulator has been consumed up to and including a sentinel when \<open>Negotiate\<close> returns.
\<close>

theorem Negotiate_candidates_discard:
  "Negotiate_candidates p answer w = (w', Some e) \<and> \<not> stuck w' \<and> cand_inv (sg w) \<longrightarrow>
     (SetRemoteDescription p (SessionDescription_Convert answer) \<noteq> None \<longrightarrow>
        w' = world_candidateProcessDiscard (w\<lparr>forwarded := forwarded w @ [[]]\<rparr>)) \<and>
     (SetRemoteDescription p (SessionDescription_Convert answer) = None \<longrightarrow>
        (\<exists>w1 d. world_candidateProcessSend p w = (w1, d, Some e) \<and>
           (\<not> d \<longrightarrow> w' = world_candidateProcessDiscard w1) \<and> (d \<longrightarrow> w' = w1))) \<and>
     (\<exists>pre taken. events w = pre @ events w' \<and>
        taken @ candidates (sg w') = candidates (sg w) @ gathered pre \<and>
        taken \<noteq> [] \<and> last taken = [])"
proof (intro impI, elim conjE)
  assume run: "Negotiate_candidates p answer w = (w', Some e)" and ns: "\<not> stuck w'"
    and inv: "cand_inv (sg w)"
  let ?acc = "\<exists>pre taken. events w = pre @ events w' \<and>
        taken @ candidates (sg w') = candidates (sg w) @ gathered pre \<and>
        taken \<noteq> [] \<and> last taken = []"
  show "(SetRemoteDescription p (SessionDescription_Convert answer) \<noteq> None \<longrightarrow>
        w' = world_candidateProcessDiscard (w\<lparr>forwarded := forwarded w @ [[]]\<rparr>)) \<and>
     (SetRemoteDescription p (SessionDescription_Convert answer) = None \<longrightarrow>
        (\<exists>w1 d. world_candidateProcessSend p w = (w1, d, Some e) \<and>
           (\<not> d \<longrightarrow> w' = world_candidateProcessDiscard w1) \<and> (d \<longrightarrow> w' = w1))) \<and> ?acc"
  proof (cases "SetRemoteDescription p (SessionDescription_Convert answer)")
    case (Some e0)
    let ?w0 = "w\<lparr>forwarded := forwarded w @ [[]]\<rparr>"
    from run Some have w': "w' = world_candidateProcessDiscard ?w0"
      by (auto simp: Negotiate_candidates_def Let_def)
    have "?acc" using discard_account[of ?w0] ns inv w' by simp
    with w' Some show ?thesis by simp
  next
    case None
    obtain w1 d e1 where s: "world_candidateProcessSend p w = (w1, d, e1)"
      by (cases "world_candidateProcessSend p w") auto
    with run None have r: "e1 = Some e" "\<not> d \<longrightarrow> w' = world_candidateProcessDiscard w1"
      "d \<longrightarrow> w' = w1"
      by (auto simp: Negotiate_candidates_def split: if_splits)
    have ns1: "\<not> stuck w1" using r ns discard_stuck[of w1] by (cases d) auto
    from s have s': "candidates_run (set_CandidateAdd p) True w = (w1, d, e1)"
      by (simp add: world_candidateProcessSend_def)
    from candidates_run_account[OF s' ns1 inv] obtain pre taken where
      a1: "events w = pre @ events w1" "taken @ candidates (sg w1) = candidates (sg w) @ gathered pre"
        "d \<longrightarrow> taken \<noteq> [] \<and> last taken = []" "cand_inv (sg w1)"
      by blast
    have "?acc"
    proof (cases d)
      case True
      with a1 r show ?thesis by auto
    next
      case False
      with r have w': "w' = world_candidateProcessDiscard w1" by simp
      from discard_account[of w1] ns w' a1(4) obtain pre2 taken2 where
        a2: "events w1 = pre2 @ events w'" "taken2 @ candidates (sg w') = candidates (sg w1) @ gathered pre2"
          "taken2 \<noteq> []" "last taken2 = []"
        by auto
      have "events w = (pre @ pre2) @ events w'" using a1 a2 by simp
      moreover have "(taken @ taken2) @ candidates (sg w') = candidates (sg w) @ gathered (pre @ pre2)"
        using a1(2) a2(2) by (simp add: gathered_append)
      moreover have "taken @ taken2 \<noteq> []" "last (taken @ taken2) = []" using a2 by simp_all
      ultimately show ?thesis by blast
    qed
    with s r None show ?thesis by simp
  qed
qed

text \<open>
  C6, counterexample. The claim as it was stated fails where the remote \<open>CandidateAdd\<close> fails on the batch that
  ends in the sentinel: the send returns \<open>done = true\<close> with the error, \<open>Negotiate\<close> returns
  the error at once and the batch has been forwarded; a discard at this point would wait
  for a further sentinel.
\<close>

theorem Negotiate_candidates_discard_counterexample:
  "Negotiate_candidates peer_last_fails answer_demo (world_gathering gather_two) =
     ((world_gathering [])\<lparr>forwarded := [[''a'', []]]\<rparr>, Some (Simple ''broken pipe'')) \<and>
   world_candidateProcessSend peer_last_fails (world_gathering gather_two) =
     ((world_gathering [])\<lparr>forwarded := [[''a'', []]]\<rparr>, True, Some (Simple ''broken pipe'')) \<and>
   \<not> stuck ((world_gathering [])\<lparr>forwarded := [[''a'', []]]\<rparr>) \<and>
   stuck (world_candidateProcessDiscard ((world_gathering [])\<lparr>forwarded := [[''a'', []]]\<rparr>)) \<and>
   fst (Negotiate_candidates peer_last_fails answer_demo (world_gathering gather_two)) \<noteq>
     world_candidateProcessDiscard
       (fst (world_candidateProcessSend peer_last_fails (world_gathering gather_two)))"
proof -
  have ns: "\<not> stuck ((world_gathering [])\<lparr>forwarded := [[''a'', []]]\<rparr>)"
    by (simp add: world_gathering_def world_of_def)
  show ?thesis
    using demo_last_fails demo_last_fails_candidates demo_last_fails_discard ns
    by (auto simp del: One_nat_def)
qed


theorem Negotiate_candidates_discard_witness:
  "Negotiate_candidates peer_send_fails answer_demo (world_gathering gather_split) =
     ((world_gathering [])\<lparr>forwarded := [[''a'']]\<rparr>, Some (Simple ''broken pipe'')) \<and>
   (world_gathering [])\<lparr>forwarded := [[''a'']]\<rparr> =
     world_candidateProcessDiscard
       (fst (world_candidateProcessSend peer_send_fails (world_gathering gather_split))) \<and>
   Negotiate_candidates peer_remote_rejected answer_demo (world_gathering gather_two) =
     ((world_gathering [])\<lparr>forwarded := [[]]\<rparr>, Some (Simple ''bad description'')) \<and>
   (world_gathering [])\<lparr>forwarded := [[]]\<rparr> =
     world_candidateProcessDiscard ((world_gathering gather_two)\<lparr>forwarded := [[]]\<rparr>) \<and>
   Negotiate_candidates peer_last_fails answer_demo (world_gathering gather_two) =
     ((world_gathering [])\<lparr>forwarded := [[''a'', []]]\<rparr>, Some (Simple ''broken pipe'')) \<and>
   (world_gathering [])\<lparr>forwarded := [[''a'', []]]\<rparr> =
     fst (world_candidateProcessSend peer_last_fails (world_gathering gather_two))"
proof -
  note t = Negotiate_candidates_discard
  have ns: "\<And>f. \<not> stuck ((world_gathering [])\<lparr>forwarded := f\<rparr>)"
    by (simp add: world_gathering_def world_of_def)
  have r: "SetRemoteDescription peer_send_fails (SessionDescription_Convert answer_demo) = None"
    "SetRemoteDescription peer_last_fails (SessionDescription_Convert answer_demo) = None"
    "SetRemoteDescription peer_remote_rejected (SessionDescription_Convert answer_demo) \<noteq> None"
    by (simp_all add: peer_send_fails_def peer_last_fails_def peer_remote_rejected_def peer_ok_def)
  have f: "forwarded (world_gathering gather_two) = []"
    by (simp add: world_gathering_def world_of_def)
  have a: "(world_gathering [])\<lparr>forwarded := [[''a'']]\<rparr> =
     world_candidateProcessDiscard
       (fst (world_candidateProcessSend peer_send_fails (world_gathering gather_split)))"
    using t[of peer_send_fails answer_demo "world_gathering gather_split"
        "(world_gathering [])\<lparr>forwarded := [[''a'']]\<rparr>" "Simple ''broken pipe''"]
      demo_send_fails_candidates demo_send_fails ns world_gathering_inv r(1)
    by auto
  have b: "(world_gathering [])\<lparr>forwarded := [[]]\<rparr> =
     world_candidateProcessDiscard ((world_gathering gather_two)\<lparr>forwarded := [[]]\<rparr>)"
    using t[of peer_remote_rejected answer_demo "world_gathering gather_two"
        "(world_gathering [])\<lparr>forwarded := [[]]\<rparr>" "Simple ''bad description''"]
      demo_remote_rejected_candidates ns world_gathering_inv r(3) f
    by auto
  have c: "(world_gathering [])\<lparr>forwarded := [[''a'', []]]\<rparr> =
     fst (world_candidateProcessSend peer_last_fails (world_gathering gather_two))"
    using t[of peer_last_fails answer_demo "world_gathering gather_two"
        "(world_gathering [])\<lparr>forwarded := [[''a'', []]]\<rparr>" "Simple ''broken pipe''"]
      demo_last_fails_candidates demo_last_fails ns world_gathering_inv r(2)
    by auto
  show ?thesis
    using a b c demo_send_fails_candidates demo_remote_rejected_candidates
      demo_last_fails_candidates by blast
qed

text \<open>
  C7. \<open>candidateWant = true\<close> and a non-empty \<open>candidates\<close> buffer never hold together: this
  holds for a new Signaler, each step of the callback and of the consumer keeps it, so it
  holds in every state reached by any schedule. \<open>candidateHandle\<close> hands the candidate to the
  waiting consumer and clears \<open>candidateWant\<close> instead of appending, and the locked section
  of \<open>candidateProcess\<close> sets \<open>candidateWant\<close> only when the buffer is empty.
\<close>

theorem candidateWant_excludes_buffer:
  "cand_inv (SignalerMake p) \<and>
   (cand_inv (sig cf) \<longrightarrow> cand_inv (sig (crun fn evs cf))) \<and>
   cand_inv (sig (crun fn evs (cconf_start (SignalerMake p)))) \<and>
   (candidateWant x \<longrightarrow>
      (\<exists>c. candidateHandle g x = (x\<lparr>candidateWant := False\<rparr>, Some c))) \<and>
   (candidateWant (snd (candidateProcess_lock x)) \<and> \<not> candidateWant x \<longrightarrow> candidates x = [])"
proof -
  have a: "cand_inv (SignalerMake p)" by (simp add: cand_inv_def SignalerMake_def)
  then have "cand_inv (sig (cconf_start (SignalerMake p)))" by (simp add: cconf_start_def)
  then have b: "cand_inv (sig (crun fn evs (cconf_start (SignalerMake p))))"
    by (rule crun_cand_inv)
  have c: "candidateWant x \<longrightarrow> (\<exists>c. candidateHandle g x = (x\<lparr>candidateWant := False\<rparr>, Some c))"
    by (simp add: candidateHandle_def Let_def)
  have d: "candidateWant (snd (candidateProcess_lock x)) \<and> \<not> candidateWant x \<longrightarrow> candidates x = []"
    by (simp add: candidateProcess_lock_def split: if_splits)
  show ?thesis using a b c d crun_cand_inv by blast
qed

theorem candidateWant_excludes_buffer_witness:
  "cand_inv (sig (cconf_start (SignalerMake True))) \<and>
   cand_inv (sig (crun (\<lambda>h c. None) ev_demo (cconf_start (SignalerMake True)))) \<and>
   candidateWant (snd (candidateProcess_lock (SignalerMake True))) \<and>
   \<not> candidateWant (SignalerMake True) \<and> candidates (SignalerMake True) = [] \<and>
   candidateHandle None (snd (candidateProcess_lock (SignalerMake True))) =
     (SignalerMake True, Some [])"
proof -
  have a: "cand_inv (sig (cconf_start (SignalerMake True)))"
    by (simp add: cand_inv_def cconf_start_def SignalerMake_def)
  have b: "candidateWant (snd (candidateProcess_lock (SignalerMake True)))"
    "\<not> candidateWant (SignalerMake True)"
    by (simp_all add: candidateProcess_lock_def SignalerMake_def)
  have c: "candidateHandle None (snd (candidateProcess_lock (SignalerMake True))) =
     (SignalerMake True, Some [])"
    by (simp add: candidateHandle_def candidateProcess_lock_def SignalerMake_def)
  show ?thesis
    using a b c
      candidateWant_excludes_buffer[of True "cconf_start (SignalerMake True)" "\<lambda>h c. None"
        ev_demo "snd (candidateProcess_lock (SignalerMake True))" None]
      candidateWant_excludes_buffer[of True "cconf_start (SignalerMake True)" "\<lambda>h c. None"
        ev_demo "SignalerMake True" None]
    by blast
qed

text \<open>
  C8, as amended. For callers of \<open>Negotiate\<close> on an idle Signaler with no call from the
  remote peer, in every interleaving: at any time at most one caller runs an exchange; the
  first exchange is run by the caller that found the Signaler idle, for itself alone;
  callers that arrive while a round is in flight are queued and are served by a later
  round, run by the head of the queue. Every caller belongs to at most one round, and a
  caller that returns has the result of the round that it ran or in whose batch it was:
  all callers of one round receive the identical result.
\<close>

theorem Negotiate_callers_served:
  "(\<forall>t e. npc (nrun evs (nstate_start (SignalerMake p))) t = NReturned e \<longrightarrow>
      served (nrun evs (nstate_start (SignalerMake p))) t e) \<and>
   (\<forall>r \<in> set (rounds (nrun evs (nstate_start (SignalerMake p)))).
      \<forall>t \<in> set (members r). \<forall>e.
        npc (nrun evs (nstate_start (SignalerMake p))) t = NReturned e \<longrightarrow> e = result_of r) \<and>
   distinct (concat (map members (rounds (nrun evs (nstate_start (SignalerMake p)))))) \<and>
   (\<forall>t t' b b'. npc (nrun evs (nstate_start (SignalerMake p))) t = NActive b \<and>
      npc (nrun evs (nstate_start (SignalerMake p))) t' = NActive b' \<longrightarrow> t = t') \<and>
   (rounds (nrun evs (nstate_start (SignalerMake p))) \<noteq> [] \<longrightarrow>
      fst (snd (hd (rounds (nrun evs (nstate_start (SignalerMake p)))))) = [])"
proof -
  let ?s = "nrun evs (nstate_start (SignalerMake p))"
  have i: "ninv ?s" by (rule reachable_ninv)
  note il = ninvD(1)[OF i] and ir = ninvD(5)[OF i] and io = ninvD(6)[OF i]
  have a: "\<forall>t e. npc ?s t = NReturned e \<longrightarrow> served ?s t e"
    using returned_result[OF ir] by blast
  have b: "\<forall>r \<in> set (rounds ?s). \<forall>t \<in> set (members r). \<forall>e.
        npc ?s t = NReturned e \<longrightarrow> e = result_of r"
    using served_unique[OF io] returned_result[OF ir] by blast
  have c: "distinct (concat (map members (rounds ?s)))" by (rule rounds_distinct[OF io])
  have d: "\<forall>t t' b b'. npc ?s t = NActive b \<and> npc ?s t' = NActive b' \<longrightarrow> t = t'"
    using leader_unique[OF il] leader_Active by blast
  have "first_alone ?s" by (rule nrun_first_alone[OF first_alone_start])
  then have e: "rounds ?s \<noteq> [] \<longrightarrow> fst (snd (hd (rounds ?s))) = []"
    by (simp add: first_alone_def)
  show ?thesis using a b c d e by blast
qed

text \<open>
  C8, counterexample. The claim as it was stated fails with two callers: the second calls while the round of
  the first is in flight, is promoted when that round ends, and runs an exchange of its
  own. Both callers run an exchange and their results differ.
\<close>

theorem Negotiate_callers_counterexample:
  "npc (nrun callers_two (nstate_start (SignalerMake False))) 0 = NReturned None \<and>
   npc (nrun callers_two (nstate_start (SignalerMake False))) 1 = NReturned (Some (Simple ''failed'')) \<and>
   rounds (nrun callers_two (nstate_start (SignalerMake False))) =
     [(0, [], None), (1, [], Some (Simple ''failed''))] \<and>
   length (rounds (nrun callers_two (nstate_start (SignalerMake False)))) = 2 \<and>
   NReturned None \<noteq> NReturned (Some (Simple ''failed''))"
  using callers_two_run by simp

theorem Negotiate_callers_served_witness:
  "npc (nrun callers_three (nstate_start (SignalerMake False))) 2 = NReturned (Some (Simple ''failed'')) \<and>
   served (nrun callers_three (nstate_start (SignalerMake False))) 2 (Some (Simple ''failed'')) \<and>
   (1, [2], Some (Simple ''failed'')) \<in> set (rounds (nrun callers_three (nstate_start (SignalerMake False)))) \<and>
   2 \<in> set (members (1, [2], Some (Simple ''failed''))) \<and>
   Some (Simple ''failed'') = result_of (1, [2], Some (Simple ''failed'')) \<and>
   rounds (nrun callers_three (nstate_start (SignalerMake False))) \<noteq> [] \<and>
   fst (snd (hd (rounds (nrun callers_three (nstate_start (SignalerMake False)))))) = []"
proof -
  let ?s = "nrun callers_three (nstate_start (SignalerMake False))"
  have r: "npc ?s 2 = NReturned (Some (Simple ''failed''))"
    "rounds ?s = [(0, [], None), (1, [2], Some (Simple ''failed''))]"
    using callers_three_run by simp_all
  have m: "(1, [2], Some (Simple ''failed'')) \<in> set (rounds ?s)" "rounds ?s \<noteq> []"
    by (simp_all add: r(2))
  have sv: "served ?s 2 (Some (Simple ''failed''))"
    using Negotiate_callers_served[of callers_three False] r(1) by blast
  have fa: "fst (snd (hd (rounds ?s))) = []"
    using Negotiate_callers_served[of callers_three False] m(2) by blast
  show ?thesis using r(1) m sv fa by simp
qed

text \<open>
  C9. Converting a candidate string \<open>s\<close> to the wire form \<open>webrtc.ICECandidateInit\<close> with
  \<open>Convert\<close> and reading the payload back gives \<open>s\<close>: \<open>Candidate(s).Convert().Candidate == s\<close>;
  and \<open>CandidateOf\<close> of a Pion candidate whose JSON form is that value gives \<open>s\<close> again. This
  holds for every string, so for every non-empty one.
\<close>

theorem Candidate_Convert_roundtrip:
  "Candidate (Convert s) = s \<and> CandidateOf (ICECandidate (Convert s)) = s"
  by (simp add: Convert_def CandidateOf_def)

text \<open>
  C10. \<open>CandidateAdd\<close> called with no candidate returns nil in every state of the Signaler:
  it only starts a goroutine. Whatever that goroutine sends, the error
  \<open>peer rejected answer\<close> goes over channels of \<open>waitSimple\<close> only; its one other send is the
  nil of \<open>finish\<close> to the head of the pending callers. The error is never the return value
  of the call.
\<close>

theorem CandidateAdd_empty_returns_nil:
  "CandidateAdd p [] w = (w\<lparr>spawned := spawned w @ [RejectAnswer]\<rparr>, Some None) \<and>
   (\<forall>m \<in> set (sent (run_task p RejectAnswer w)).
      m \<in> set (sent w) \<or>
      (fst m \<in> set (waitSimple (sg w)) \<and> snd m = Some (Simple ''peer rejected answer'')) \<or>
      m = (hd (waitPending (sg w)), None))"
proof
  show "CandidateAdd p [] w = (w\<lparr>spawned := spawned w @ [RejectAnswer]\<rparr>, Some None)"
    by (simp add: CandidateAdd_def)
  let ?w1 = "world_candidateProcessDiscard w"
  have f: "sent ?w1 = sent w" "waitSimple (sg ?w1) = waitSimple (sg w)"
    "waitPending (sg ?w1) = waitPending (sg w)"
    using discard_frame[of w] by (simp_all add: same_frame_def same_queues_def)
  show "\<forall>m \<in> set (sent (run_task p RejectAnswer w)).
      m \<in> set (sent w) \<or>
      (fst m \<in> set (waitSimple (sg w)) \<and> snd m = Some (Simple ''peer rejected answer'')) \<or>
      m = (hd (waitPending (sg w)), None)"
    using finishAnswer_sent_subset[of "Some (Simple ''peer rejected answer'')" ?w1] f
    by (auto simp: run_task_def)
qed

theorem CandidateAdd_empty_returns_nil_witness:
  "snd (CandidateAdd peer_ok [] world_simple) = Some None \<and>
   (9, Some (Simple ''peer rejected answer'')) \<in> set (sent (run_task peer_ok RejectAnswer world_simple)) \<and>
   9 \<in> set (waitSimple (sg world_simple))"
proof -
  have m: "(9, Some (Simple ''peer rejected answer'')) \<in> set (sent (run_task peer_ok RejectAnswer world_simple))"
    by (simp add: demo_reject_sent)
  have s: "sent world_simple = []" "waitSimple (sg world_simple) = [7, 9]"
    by (simp_all add: world_simple_def world_of_def)
  from CandidateAdd_empty_returns_nil[of peer_ok world_simple] m s
  show ?thesis by auto
qed

end
